theory Spec2Isabelle
  imports Complex_Main "HOL-Library.Char_ord" "HOL-Library.List_Lexorder"
begin

text \<open>
  The element sorter of the repository: \<open>parseCondition\<close>, \<open>_compareField\<close>,
  \<open>_compare\<close>, \<open>_findPosition\<close>, \<open>insertElement\<close> and \<open>sortElements\<close> of
  \<open>src/elementsorter.js\<close>, in the revision that holds its own comparison (the
  second one of the source file), over a model of the values and operations of the host
  language that the code uses.
\<close>

section \<open>Host values\<close>

text \<open>
  The sorter compares the field values of item objects with the relational operators of
  JavaScript. A number is an IEEE double: the code only compares numbers, so a finite
  double is modelled by its rational value (\<open>-0\<close> and \<open>+0\<close> are the same
  value, as they are for \<open><\<close>), beside the two infinities and \<open>NaN\<close>.
\<close>

datatype jsnum = NaN | NegInfinity | Finite rat | PosInfinity

text \<open>
  A value is \<open>undefined\<close>, \<open>null\<close>, a boolean, a number, a string, a Date (held as its
  time value, which is \<open>NaN\<close> for an invalid date) or a plain object (its own properties,
  the first binding of a name being the property's value). A string is the list of its
  code units; the model covers code units below 256.
\<close>

datatype jsval =
    Undefined
  | Null
  | Bool bool
  | Num jsnum
  | Str string
  | Date jsnum
  | Obj "(string \<times> jsval) list"

type_synonym itemObject = "(string \<times> jsval) list"

text \<open>\<open>x < y\<close> on numbers: false as soon as one side is \<open>NaN\<close>.\<close>

fun num_lt :: "jsnum \<Rightarrow> jsnum \<Rightarrow> bool" where
  "num_lt NaN _ = False"
| "num_lt _ NaN = False"
| "num_lt (Finite a) (Finite b) = (a < b)"
| "num_lt NegInfinity NegInfinity = False"
| "num_lt NegInfinity _ = True"
| "num_lt _ NegInfinity = False"
| "num_lt PosInfinity _ = False"
| "num_lt _ PosInfinity = True"

text \<open>
  The conversions of the relational comparison of ECMAScript. \<open>ToPrimitive\<close> (hint
  number) turns a Date into its time value and a plain object into the string
  \<open>[object Object]\<close>. \<open>ToNumber\<close> of a string is the one conversion that is not
  modelled (it parses the string as a numeric literal): a string that meets a non-string
  is taken as not numeric. The spec leaves the order of values of different types open
  (section 4.2, 5, and section 9); the properties below either use nothing of a
  comparison but that \<open>l > r\<close> is \<open>r < l\<close>, or are about values of one
  supported type.
\<close>

fun ToPrimitive :: "jsval \<Rightarrow> jsval" where
  "ToPrimitive (Date t) = Num t"
| "ToPrimitive (Obj _) = Str ''[object Object]''"
| "ToPrimitive v = v"

fun ToNumber :: "jsval \<Rightarrow> jsnum" where
  "ToNumber Undefined = NaN"
| "ToNumber Null = Finite 0"
| "ToNumber (Bool b) = (if b then Finite 1 else Finite 0)"
| "ToNumber (Num n) = n"
| "ToNumber (Str _) = NaN"
| "ToNumber (Date t) = t"
| "ToNumber (Obj _) = NaN"

text \<open>
  \<open>l < r\<close>: two strings are compared by code units, lexicographically; everything else
  is compared as numbers. \<open>l > r\<close> is \<open>r < l\<close>.
\<close>

definition js_lt :: "jsval \<Rightarrow> jsval \<Rightarrow> bool" where
  "js_lt l r =
     (case (ToPrimitive l, ToPrimitive r) of
        (Str s, Str t) \<Rightarrow> s < t
      | (p, q) \<Rightarrow> num_lt (ToNumber p) (ToNumber q))"

definition js_gt :: "jsval \<Rightarrow> jsval \<Rightarrow> bool" where
  "js_gt l r = js_lt r l"

section \<open>Strings\<close>

text \<open>\<open>String.prototype.split\<close> with a separator of one code unit.\<close>

function split :: "char \<Rightarrow> string \<Rightarrow> string list" where
  "split sep s =
     (case dropWhile (\<lambda>c. c \<noteq> sep) s of
        [] \<Rightarrow> [s]
      | _ # rest \<Rightarrow> takeWhile (\<lambda>c. c \<noteq> sep) s # split sep rest)"
  by pat_completeness auto
termination
proof (relation "measure (\<lambda>(sep, s). length s)")
  show "wf (measure (\<lambda>(sep, s). length s))" by simp
next
  fix sep :: char and s :: string and x rest
  assume "dropWhile (\<lambda>c. c \<noteq> sep) s = x # rest"
  then have "length rest < length (dropWhile (\<lambda>c. c \<noteq> sep) s)" by simp
  also have "\<dots> \<le> length s" by (rule length_dropWhile_le)
  finally show "((sep, rest), (sep, s)) \<in> measure (\<lambda>(sep, s). length s)" by simp
qed

text \<open>
  White space and line terminators among the code units below 256: tab, line feed,
  vertical tab, form feed, carriage return, space and the no-break space.
\<close>

definition isWhiteSpace :: "char \<Rightarrow> bool" where
  "isWhiteSpace c = (of_char c \<in> {9, 10, 11, 12, 13, 32, 160 :: nat})"

definition trim :: "string \<Rightarrow> string" where
  "trim s = rev (dropWhile isWhiteSpace (rev (dropWhile isWhiteSpace s)))"

text \<open>
  \<open>toLowerCase\<close> on code units below 256: the letters A to Z, and the capital letters
  of Latin-1 (U+00C0 to U+00DE without the multiplication sign U+00D7), move up by 32.
\<close>

definition toLowerChar :: "char \<Rightarrow> char" where
  "toLowerChar c =
     (let n = of_char c :: nat in
      if (65 \<le> n \<and> n \<le> 90) \<or> (192 \<le> n \<and> n \<le> 222 \<and> n \<noteq> 215)
      then char_of (n + 32) else c)"

definition toLowerCase :: "string \<Rightarrow> string" where
  "toLowerCase s = map toLowerChar s"

definition endsWith :: "string \<Rightarrow> string \<Rightarrow> bool" where
  "endsWith s suffix =
     (length suffix \<le> length s \<and> drop (length s - length suffix) s = suffix)"

text \<open>\<open>s.substring(a, b)\<close> for \<open>a \<le> b \<le> s.length\<close>, the only way the code calls it.\<close>

definition substring :: "string \<Rightarrow> nat \<Rightarrow> nat \<Rightarrow> string" where
  "substring s a b = drop a (take b s)"

section \<open>Sort conditions\<close>

text \<open>
  Modelled from the spec: the class \<open>Condition\<close> of the module \<open>./condition\<close> is
  not among the sources. Section 3 gives an order field a path and a direction; the code
  names them \<open>fieldName\<close> and \<open>isAscendingOrder\<close> (the constructor call
  \<open>new Condition(fieldName, false)\<close> and the pattern \<open>{fieldName, isAscendingOrder}\<close>
  of \<open>_compare\<close>).
\<close>

record condition =
  fieldName :: string
  isAscendingOrder :: bool

text \<open>The body of the loop of \<open>parseCondition\<close> over the segments.\<close>

fun parseSegments :: "string list \<Rightarrow> condition list \<Rightarrow> condition list" where
  "parseSegments [] conditions = conditions"
| "parseSegments (segment # segments) conditions =
     (let segment = trim segment in
      if endsWith (toLowerCase segment) ''desc'' then
        (let fieldName = substring segment 0 (length segment - 4);
             fieldName = trim fieldName
         in parseSegments segments
              (conditions @ [\<lparr>fieldName = fieldName, isAscendingOrder = False\<rparr>]))
      else
        parseSegments segments
          (conditions @ [\<lparr>fieldName = segment, isAscendingOrder = True\<rparr>]))"

definition parseCondition :: "string \<Rightarrow> condition list" where
  "parseCondition expression =
     (if expression = [] then [] else parseSegments (split CHR '','' expression) [])"

section \<open>Comparing item objects\<close>

text \<open>
  Modelled from the spec: \<open>ObjectUtils.getPropertyValueByNamePath\<close> belongs to the
  package \<open>jsobjectutils\<close>. Section 4.2: the path is split at the dots and followed
  through nested objects; a segment that cannot be resolved gives \<open>undefined\<close>.
\<close>

fun resolvePath :: "jsval \<Rightarrow> string list \<Rightarrow> jsval" where
  "resolvePath v [] = v"
| "resolvePath v (name # names) =
     (case v of
        Obj properties \<Rightarrow>
          (case map_of properties name of
             None \<Rightarrow> Undefined
           | Some w \<Rightarrow> resolvePath w names)
      | _ \<Rightarrow> Undefined)"

definition getPropertyValueByNamePath :: "itemObject \<Rightarrow> string \<Rightarrow> jsval" where
  "getPropertyValueByNamePath obj namePath = resolvePath (Obj obj) (split CHR ''.'' namePath)"

text \<open>The chain of tests of \<open>_compareField\<close> on the two resolved values.\<close>

definition compareValue :: "jsval \<Rightarrow> jsval \<Rightarrow> int" where
  "compareValue leftValue rightValue =
     (if leftValue = Undefined \<and> rightValue = Undefined then 0
      else if leftValue = Undefined then -1
      else if rightValue = Undefined then 1
      else if leftValue = Null \<and> rightValue = Null then 0
      else if leftValue = Null then -1
      else if rightValue = Null then 1
      else if js_lt leftValue rightValue then -1
      else if js_gt leftValue rightValue then 1
      else 0)"

definition compareField :: "itemObject \<Rightarrow> itemObject \<Rightarrow> string \<Rightarrow> int" where
  "compareField leftItemObject rightItemObject namePath =
     compareValue (getPropertyValueByNamePath leftItemObject namePath)
                  (getPropertyValueByNamePath rightItemObject namePath)"

text \<open>\<open>_compare\<close>: the first condition whose field tells the two objects apart decides.\<close>

fun compare :: "itemObject \<Rightarrow> itemObject \<Rightarrow> condition list \<Rightarrow> int" where
  "compare leftItemObject rightItemObject [] = 0"
| "compare leftItemObject rightItemObject (c # conditions) =
     (let fieldResult = compareField leftItemObject rightItemObject (fieldName c) in
      if fieldResult = 0 then compare leftItemObject rightItemObject conditions
      else if isAscendingOrder c then fieldResult
      else - fieldResult)"

text \<open>
  \<open>_findPosition\<close>: the scan from index 0 for the first object that the new object is
  smaller than; \<open>-1\<close> when there is none or when there are no conditions.
\<close>

function findPositionFrom :: "itemObject list \<Rightarrow> itemObject \<Rightarrow> condition list \<Rightarrow> nat \<Rightarrow> int" where
  "findPositionFrom lastItemObjects addItemObject conditions idx =
     (if idx < length lastItemObjects then
        (let result = compare addItemObject (lastItemObjects ! idx) conditions in
         if result < 0 then int idx
         else findPositionFrom lastItemObjects addItemObject conditions (idx + 1))
      else -1)"
  by pat_completeness auto
termination
  by (relation "measure (\<lambda>(lastItemObjects, _, _, idx). length lastItemObjects - idx)") auto

definition findPosition :: "itemObject list \<Rightarrow> itemObject \<Rightarrow> condition list \<Rightarrow> int" where
  "findPosition lastItemObjects addItemObject conditions =
     (if length conditions = 0 then -1
      else findPositionFrom lastItemObjects addItemObject conditions 0)"

section \<open>The container and the mapping function\<close>

text \<open>
  What a call can throw: whatever the caller's mapping function throws, and the two
  exceptions of \<open>insertBefore\<close>.
\<close>

datatype error = CallerException string | NotFoundError | TypeError

text \<open>
  The container (the collaborator of section 6 of the spec, a DOM element in the test)
  is the list of its child nodes, in document order, with the list of the
  \<open>insertBefore\<close> calls it has carried out (oldest first), which is what a test double
  would record. \<open>insertBefore(node, reference)\<close> takes the node out of the place it has,
  if it is a child already, and puts it before the reference, or at the end when the
  reference is \<open>null\<close>; a reference that is not a child throws, and a node given as its
  own reference stays where it is.
\<close>

record 'h container =
  childNodes :: "'h list"
  insertBeforeCalls :: "('h \<times> 'h option) list"

definition insertBefore :: "'h container \<Rightarrow> 'h \<Rightarrow> 'h option \<Rightarrow> error + 'h container" where
  "insertBefore container node reference =
     (case reference of
        None \<Rightarrow>
          Inr \<lparr>childNodes = removeAll node (childNodes container) @ [node],
               insertBeforeCalls = insertBeforeCalls container @ [(node, reference)]\<rparr>
      | Some r \<Rightarrow>
          if r \<notin> set (childNodes container) then Inl NotFoundError
          else if r = node then
            Inr \<lparr>childNodes = childNodes container,
                 insertBeforeCalls = insertBeforeCalls container @ [(node, reference)]\<rparr>
          else
            (let others = removeAll node (childNodes container) in
             Inr \<lparr>childNodes =
                    takeWhile (\<lambda>x. x \<noteq> r) others @ node # dropWhile (\<lambda>x. x \<noteq> r) others,
                  insertBeforeCalls = insertBeforeCalls container @ [(node, reference)]\<rparr>))"

text \<open>\<open>lastElements.map(itemObjectMapFunc)\<close>: the first exception ends the call.\<close>

fun mapElements :: "('h \<Rightarrow> error + itemObject) \<Rightarrow> 'h list \<Rightarrow> error + itemObject list" where
  "mapElements itemObjectMapFunc [] = Inr []"
| "mapElements itemObjectMapFunc (element # elements) =
     (case itemObjectMapFunc element of
        Inl e \<Rightarrow> Inl e
      | Inr itemObject \<Rightarrow>
          (case mapElements itemObjectMapFunc elements of
             Inl e \<Rightarrow> Inl e
           | Inr itemObjects \<Rightarrow> Inr (itemObject # itemObjects)))"

text \<open>\<open>xs[i]\<close> is \<open>undefined\<close> out of range, and \<open>insertBefore\<close> takes that as \<open>null\<close>.\<close>

definition elementAt :: "'a list \<Rightarrow> nat \<Rightarrow> 'a option" where
  "elementAt xs i = (if i < length xs then Some (xs ! i) else None)"

text \<open>\<open>xs.splice(position, 0, x)\<close>.\<close>

definition splice :: "'a list \<Rightarrow> nat \<Rightarrow> 'a \<Rightarrow> 'a list" where
  "splice xs position x = take position xs @ x # drop position xs"

section \<open>insertElement\<close>

text \<open>
  The loop over \<open>addElements\<close>. A call returns its outcome (\<open>Inl\<close> the exception that
  ended it) with the container and the array \<open>lastElements\<close> as it leaves them.
\<close>

fun insertEach ::
  "condition list \<Rightarrow> ('h \<Rightarrow> error + itemObject) \<Rightarrow> 'h list \<Rightarrow> itemObject list \<Rightarrow>
   'h container \<Rightarrow> 'h list \<Rightarrow> (error + unit) \<times> 'h container \<times> 'h list" where
  "insertEach conditions itemObjectMapFunc [] lastItemObjects containerElement lastElements =
     (Inr (), containerElement, lastElements)"
| "insertEach conditions itemObjectMapFunc (addElement # addElements) lastItemObjects
     containerElement lastElements =
     (case itemObjectMapFunc addElement of
        Inl e \<Rightarrow> (Inl e, containerElement, lastElements)
      | Inr addItemObject \<Rightarrow>
          (let position = findPosition lastItemObjects addItemObject conditions in
           if position = -1 then
             (case insertBefore containerElement addElement None of
                Inl e \<Rightarrow> (Inl e, containerElement, lastElements)
              | Inr containerElement' \<Rightarrow>
                  insertEach conditions itemObjectMapFunc addElements
                    (lastItemObjects @ [addItemObject]) containerElement'
                    (lastElements @ [addElement]))
           else
             (case insertBefore containerElement addElement
                     (elementAt lastElements (nat position)) of
                Inl e \<Rightarrow> (Inl e, containerElement, lastElements)
              | Inr containerElement' \<Rightarrow>
                  insertEach conditions itemObjectMapFunc addElements
                    (splice lastItemObjects (nat position) addItemObject) containerElement'
                    (splice lastElements (nat position) addElement))))"

definition insertElement ::
  "'h container \<Rightarrow> 'h list \<Rightarrow> 'h list \<Rightarrow> condition list \<Rightarrow> ('h \<Rightarrow> error + itemObject) \<Rightarrow>
   (error + unit) \<times> 'h container \<times> 'h list" where
  "insertElement containerElement lastElements addElements conditions itemObjectMapFunc =
     (case mapElements itemObjectMapFunc lastElements of
        Inl e \<Rightarrow> (Inl e, containerElement, lastElements)
      | Inr lastItemObjects \<Rightarrow>
          insertEach conditions itemObjectMapFunc addElements lastItemObjects
            containerElement lastElements)"

section \<open>sortElements\<close>

text \<open>
  Writing and reading a property of an item object: \<open>itemObject.__index = idx\<close> and
  \<open>item.__index\<close>.
\<close>

definition setProperty :: "itemObject \<Rightarrow> string \<Rightarrow> jsval \<Rightarrow> itemObject" where
  "setProperty obj name v = (name, v) # obj"

definition getProperty :: "itemObject \<Rightarrow> string \<Rightarrow> jsval" where
  "getProperty obj name = (case map_of obj name of None \<Rightarrow> Undefined | Some v \<Rightarrow> v)"

text \<open>
  \<open>lastElements.map((element, idx) => ...)\<close>: every item object gets its index in
  \<open>lastElements\<close> as the property \<open>__index\<close>.
\<close>

fun tagItems :: "('h \<Rightarrow> error + itemObject) \<Rightarrow> 'h list \<Rightarrow> nat \<Rightarrow> error + itemObject list" where
  "tagItems itemObjectMapFunc [] idx = Inr []"
| "tagItems itemObjectMapFunc (element # elements) idx =
     (case itemObjectMapFunc element of
        Inl e \<Rightarrow> Inl e
      | Inr itemObject \<Rightarrow>
          (case tagItems itemObjectMapFunc elements (idx + 1) of
             Inl e \<Rightarrow> Inl e
           | Inr itemObjects \<Rightarrow>
               Inr (setProperty itemObject ''__index'' (Num (Finite (of_nat idx))) # itemObjects)))"

text \<open>
  \<open>Array.prototype.sort(compareFn)\<close> is a stable sort (ECMAScript 2019): an element goes
  after another one only where the comparison of the two is positive. For a comparison
  that is not a consistent order the standard leaves the result to the engine; the model
  is the stable insertion sort.
\<close>

fun insertSorted :: "('a \<Rightarrow> 'a \<Rightarrow> int) \<Rightarrow> 'a \<Rightarrow> 'a list \<Rightarrow> 'a list" where
  "insertSorted compareFn x [] = [x]"
| "insertSorted compareFn x (y # ys) =
     (if compareFn x y > 0 then y # insertSorted compareFn x ys else x # y # ys)"

definition arraySort :: "('a \<Rightarrow> 'a \<Rightarrow> int) \<Rightarrow> 'a list \<Rightarrow> 'a list" where
  "arraySort compareFn xs = foldr (insertSorted compareFn) xs []"

text \<open>
  \<open>lastElements[targetElementIdx]\<close>, the index being a value read from an item
  object: an element for a number that is an index of the array, \<open>undefined\<close> otherwise.
  (The value is always the number written by \<open>tagItems\<close>.)
\<close>

definition elementAtValue :: "'a list \<Rightarrow> jsval \<Rightarrow> 'a option" where
  "elementAtValue xs v =
     (case v of
        Num (Finite q) \<Rightarrow>
          if 0 \<le> q \<and> q = of_int \<lfloor>q\<rfloor> then elementAt xs (nat \<lfloor>q\<rfloor>) else None
      | _ \<Rightarrow> None)"

text \<open>
  The loop \<open>for (round = length - 1; round > 0; round--)\<close>, from the round given.
  \<open>insertBefore\<close> throws a TypeError for a node that is \<open>undefined\<close>.
\<close>

fun moveRounds ::
  "jsval list \<Rightarrow> 'h list \<Rightarrow> nat \<Rightarrow> 'h option \<Rightarrow> 'h container \<Rightarrow> (error + unit) \<times> 'h container" where
  "moveRounds targetElementIndexies lastElements 0 lastElement container =
     (Inr (), container)"
| "moveRounds targetElementIndexies lastElements (Suc r) lastElement container =
     (let targetElementIdx = targetElementIndexies ! Suc r in
      case elementAtValue lastElements targetElementIdx of
        None \<Rightarrow> (Inl TypeError, container)
      | Some targetElement \<Rightarrow>
          (case insertBefore container targetElement lastElement of
             Inl e \<Rightarrow> (Inl e, container)
           | Inr container' \<Rightarrow>
               moveRounds targetElementIndexies lastElements r (Some targetElement)
                 container'))"

text \<open>
  \<open>sortElements\<close> never writes to \<open>lastElements\<close>: the array is returned as it was
  passed. (With no element the first round would be \<open>-1\<close>; the loop does not run then,
  as it does not for the round \<open>0\<close> of the model.)
\<close>

definition sortElements ::
  "'h container \<Rightarrow> 'h list \<Rightarrow> condition list \<Rightarrow> ('h \<Rightarrow> error + itemObject) \<Rightarrow>
   (error + unit) \<times> 'h container \<times> 'h list" where
  "sortElements container lastElements conditions itemObjectMapFunc =
     (case tagItems itemObjectMapFunc lastElements 0 of
        Inl e \<Rightarrow> (Inl e, container, lastElements)
      | Inr itemObjects \<Rightarrow>
          (let itemObjects = arraySort (\<lambda>l r. compare l r conditions) itemObjects;
               targetElementIndexies = map (\<lambda>item. getProperty item ''__index'') itemObjects
           in case moveRounds targetElementIndexies lastElements
                     (length targetElementIndexies - 1) None container of
                (outcome, container') \<Rightarrow> (outcome, container', lastElements)))"

section \<open>Notions of the specification\<close>

text \<open>
  The tokens of a sort expression: the pieces between the commas; the empty expression
  has none.
\<close>

definition tokens :: "string \<Rightarrow> string list" where
  "tokens expression = (if expression = [] then [] else split CHR '','' expression)"

text \<open>A token carries the marker when its last four letters are d, e, s, c, in any case.\<close>

definition descMarked :: "string \<Rightarrow> bool" where
  "descMarked t =
     (4 \<le> length t \<and>
      (let m = drop (length t - 4) t in
       m ! 0 \<in> {CHR ''d'', CHR ''D''} \<and> m ! 1 \<in> {CHR ''e'', CHR ''E''} \<and>
       m ! 2 \<in> {CHR ''s'', CHR ''S''} \<and> m ! 3 \<in> {CHR ''c'', CHR ''C''}))"

text \<open>The order field of one token, in the words of section 4.1.\<close>

definition tokenCondition :: "string \<Rightarrow> condition" where
  "tokenCondition token =
     (let t = trim token in
      if descMarked t
      then \<lparr>fieldName = trim (take (length t - 4) t), isAscendingOrder = False\<rparr>
      else \<lparr>fieldName = t, isAscendingOrder = True\<rparr>)"

text \<open>
  Two values are of the same supported type; two values can be compared when they are,
  or when one of them is \<open>null\<close> or \<open>undefined\<close>.
\<close>

fun sameSupportedType :: "jsval \<Rightarrow> jsval \<Rightarrow> bool" where
  "sameSupportedType (Num _) (Num _) = True"
| "sameSupportedType (Str _) (Str _) = True"
| "sameSupportedType (Bool _) (Bool _) = True"
| "sameSupportedType (Date _) (Date _) = True"
| "sameSupportedType _ _ = False"

definition comparableValues :: "jsval \<Rightarrow> jsval \<Rightarrow> bool" where
  "comparableValues l r =
     (l = Undefined \<or> l = Null \<or> r = Undefined \<or> r = Null \<or> sameSupportedType l r)"

text \<open>The number \<open>NaN\<close> and the invalid Date.\<close>

definition notANumber :: "jsval \<Rightarrow> bool" where
  "notANumber v = (v = Num NaN \<or> v = Date NaN)"

text \<open>
  Four elements whose field \<open>v\<close> is \<open>undefined\<close> (the item object has no such
  property), \<open>null\<close>, 1 and 2.
\<close>

definition nullOrderItem :: "nat \<Rightarrow> error + itemObject" where
  "nullOrderItem h =
     (if h = 0 then Inr []
      else if h = 1 then Inr [(''v'', Null)]
      else if h = 2 then Inr [(''v'', Num (Finite 1))]
      else if h = 3 then Inr [(''v'', Num (Finite 2))]
      else Inl (CallerException ''no such element''))"

text \<open>
  The children of a container that holds the elements of \<open>lastElements\<close>, in that
  order, after \<open>sortElements\<close>.
\<close>

definition sortedChildren ::
  "'h list \<Rightarrow> condition list \<Rightarrow> ('h \<Rightarrow> error + itemObject) \<Rightarrow> (error + unit) \<times> 'h list" where
  "sortedChildren lastElements conditions itemObjectMapFunc =
     (case sortElements \<lparr>childNodes = lastElements, insertBeforeCalls = []\<rparr> lastElements
             conditions itemObjectMapFunc of
        (outcome, container, _) \<Rightarrow> (outcome, childNodes container))"

text \<open>
  The index at which \<open>insertElement\<close> splices a new item object: the position found,
  or the end of the array for \<open>-1\<close>.
\<close>

definition insertionIndex :: "itemObject list \<Rightarrow> itemObject \<Rightarrow> condition list \<Rightarrow> nat" where
  "insertionIndex lastItemObjects addItemObject conditions =
     (let position = findPosition lastItemObjects addItemObject conditions in
      if position = -1 then length lastItemObjects else nat position)"

text \<open>No comparison of two neighbours is positive.\<close>

fun nonDecreasing :: "condition list \<Rightarrow> itemObject list \<Rightarrow> bool" where
  "nonDecreasing conditions [] = True"
| "nonDecreasing conditions [x] = True"
| "nonDecreasing conditions (x # y # zs) =
     (\<not> compare x y conditions > 0 \<and> nonDecreasing conditions (y # zs))"

text \<open>
  The array of elements, mapped through the mapping function, is non-decreasing (and
  the mapping function throws for none of them).
\<close>

definition mirrorNonDecreasing ::
  "condition list \<Rightarrow> ('h \<Rightarrow> error + itemObject) \<Rightarrow> 'h list \<Rightarrow> bool" where
  "mirrorNonDecreasing conditions itemObjectMapFunc lastElements =
     (case mapElements itemObjectMapFunc lastElements of
        Inl _ \<Rightarrow> False
      | Inr itemObjects \<Rightarrow> nonDecreasing conditions itemObjects)"

text \<open>
  A sequence of calls of \<open>insertElement\<close> on one container and one array, each with
  its own new elements; a call that throws leaves its state to the next one.
\<close>

fun insertCalls ::
  "'h container \<Rightarrow> 'h list \<Rightarrow> 'h list list \<Rightarrow> condition list \<Rightarrow> ('h \<Rightarrow> error + itemObject) \<Rightarrow>
   'h container \<times> 'h list" where
  "insertCalls containerElement lastElements [] conditions itemObjectMapFunc =
     (containerElement, lastElements)"
| "insertCalls containerElement lastElements (addElements # calls) conditions itemObjectMapFunc =
     (case insertElement containerElement lastElements addElements conditions itemObjectMapFunc of
        (_, containerElement', lastElements') \<Rightarrow>
          insertCalls containerElement' lastElements' calls conditions itemObjectMapFunc)"

text \<open>The comparison is transitive on the item objects of a list.\<close>

definition transitiveOn :: "condition list \<Rightarrow> itemObject list \<Rightarrow> bool" where
  "transitiveOn conditions itemObjects =
     (\<forall>a \<in> set itemObjects. \<forall>b \<in> set itemObjects. \<forall>c \<in> set itemObjects.
        compare a b conditions \<le> 0 \<and> compare b c conditions \<le> 0 \<longrightarrow>
        compare a c conditions \<le> 0)"

text \<open>Three elements whose field \<open>v\<close> is 1, \<open>NaN\<close> and 0.\<close>

definition nanItem :: "nat \<Rightarrow> error + itemObject" where
  "nanItem h =
     (if h = 0 then Inr [(''v'', Num (Finite 1))]
      else if h = 1 then Inr [(''v'', Num NaN)]
      else if h = 2 then Inr [(''v'', Num (Finite 0))]
      else Inl (CallerException ''no such element''))"

text \<open>
  The six elements of the repository's test, named by their \<open>data-id\<close>, and the item
  objects its mapping function makes of them.
\<close>

definition testItem :: "nat \<Rightarrow> error + itemObject" where
  "testItem h =
     (if h = 5 then
        Inr [(''id'', Num (Finite 5)), (''type'', Str ''foo''), (''checked'', Bool False)]
      else if h = 2 then
        Inr [(''id'', Num (Finite 2)), (''type'', Str ''foo''), (''checked'', Bool True)]
      else if h = 1 then
        Inr [(''id'', Num (Finite 1)), (''type'', Str ''foo''), (''checked'', Bool False)]
      else if h = 6 then
        Inr [(''id'', Num (Finite 6)), (''type'', Str ''bar''), (''checked'', Bool True)]
      else if h = 9 then
        Inr [(''id'', Num (Finite 9)), (''type'', Str ''bar''), (''checked'', Bool False)]
      else if h = 3 then
        Inr [(''id'', Num (Finite 3)), (''type'', Str ''bar''), (''checked'', Bool True)]
      else Inl (CallerException ''not an item element''))"

definition emptyContainer :: "nat container" where
  "emptyContainer = \<lparr>childNodes = [], insertBeforeCalls = []\<rparr>"

text \<open>The item object of the element at an index, with the index written on it.\<close>

definition tagged :: "nat \<times> itemObject \<Rightarrow> itemObject" where
  "tagged p = setProperty (snd p) ''__index'' (Num (Finite (of_nat (fst p))))"

text \<open>
  The order a stable sort of the item objects gives to their elements: the elements are
  sorted by the comparison of their item objects.
\<close>

definition referenceOrder :: "'h list \<Rightarrow> itemObject list \<Rightarrow> condition list \<Rightarrow> 'h list" where
  "referenceOrder elements itemObjects conditions =
     map fst (arraySort (\<lambda>l r. compare (snd l) (snd r) conditions) (zip elements itemObjects))"

text \<open>The first name of a path.\<close>

definition firstName :: "string \<Rightarrow> string" where
  "firstName namePath = hd (split CHR ''.'' namePath)"

text \<open>
  The elements in the order \<open>sortElements\<close> aims at: the indexes read from the sorted
  item objects (\<open>targetElementIndexies\<close>), looked up in \<open>lastElements\<close>.
\<close>

definition targetOrder :: "'h list \<Rightarrow> itemObject list \<Rightarrow> condition list \<Rightarrow> 'h list" where
  "targetOrder lastElements itemObjects conditions =
     map (\<lambda>p. lastElements ! fst p)
       (arraySort (\<lambda>l r. compare (tagged l) (tagged r) conditions)
          (zip [0 ..< length lastElements] itemObjects))"

text \<open>
  For every condition, the values its path resolves to on the item objects of a list
  can be compared two by two, and none of them is \<open>NaN\<close> or an invalid Date.
\<close>

definition fieldsComparable :: "condition list \<Rightarrow> itemObject list \<Rightarrow> bool" where
  "fieldsComparable conditions itemObjects =
     (\<forall>c \<in> set conditions. \<forall>a \<in> set itemObjects. \<forall>b \<in> set itemObjects.
        comparableValues (getPropertyValueByNamePath a (fieldName c))
                         (getPropertyValueByNamePath b (fieldName c)) \<and>
        \<not> notANumber (getPropertyValueByNamePath a (fieldName c)))"

section \<open>The comparison\<close>

lemma num_lt_asym: "num_lt a b \<Longrightarrow> \<not> num_lt b a"
  by (cases a; cases b) auto

lemma js_lt_asym: "js_lt l r \<Longrightarrow> \<not> js_lt r l"
  unfolding js_lt_def
  by (cases "ToPrimitive l"; cases "ToPrimitive r") (auto dest: num_lt_asym)

lemma compareValue_antisym: "compareValue l r = - compareValue r l"
  unfolding compareValue_def js_gt_def using js_lt_asym [of l r] by auto

lemma compareField_antisym: "compareField a b p = - compareField b a p"
  unfolding compareField_def by (rule compareValue_antisym)

lemma compare_antisym: "compare a b cs = - compare b a cs"
proof (induction cs)
  case Nil
  show ?case by simp
next
  case (Cons c cs)
  have "compareField a b (fieldName c) = - compareField b a (fieldName c)"
    by (rule compareField_antisym)
  with Cons show ?case by (simp add: Let_def)
qed

lemma compare_refl: "compare a a cs = 0"
  using compare_antisym [of a a cs] by simp

lemma compareValue_le_iff:
  "compareValue l r \<le> 0 \<longleftrightarrow>
     l = Undefined \<or> (r \<noteq> Undefined \<and> (l = Null \<or> (r \<noteq> Null \<and> \<not> js_lt r l)))"
  unfolding compareValue_def js_gt_def using js_lt_asym [of l r] by auto

lemma num_le_trans:
  "a \<noteq> NaN \<Longrightarrow> b \<noteq> NaN \<Longrightarrow> c \<noteq> NaN \<Longrightarrow>
   \<not> num_lt b a \<Longrightarrow> \<not> num_lt c b \<Longrightarrow> \<not> num_lt c a"
  by (cases a; cases b; cases c) auto

lemma js_le_trans:
  assumes "sameSupportedType a b" "sameSupportedType b c"
    and "\<not> notANumber a" "\<not> notANumber b" "\<not> notANumber c"
    and "\<not> js_lt b a" "\<not> js_lt c b"
  shows "\<not> js_lt c a"
proof (cases b)
  case (Num n)
  with assms(1,2) obtain m k where "a = Num m" "c = Num k" by (cases a; cases c) auto
  with Num assms(3-) show ?thesis
    by (auto simp: js_lt_def notANumber_def dest: num_le_trans)
next
  case (Date n)
  with assms(1,2) obtain m k where "a = Date m" "c = Date k" by (cases a; cases c) auto
  with Date assms(3-) show ?thesis
    by (auto simp: js_lt_def notANumber_def dest: num_le_trans)
next
  case (Str s)
  with assms(1,2) obtain t u where "a = Str t" "c = Str u" by (cases a; cases c) auto
  with Str assms(6,7) show ?thesis by (auto simp: js_lt_def)
next
  case (Bool x)
  with assms(1,2) obtain y z where "a = Bool y" "c = Bool z" by (cases a; cases c) auto
  with Bool assms(6,7) show ?thesis by (auto simp: js_lt_def split: if_splits)
qed (use assms(1) in \<open>cases a; simp\<close>)+

lemma compareValue_trans:
  assumes "comparableValues a b" "comparableValues b c"
    and "\<not> notANumber a" "\<not> notANumber b" "\<not> notANumber c"
    and ab: "compareValue a b \<le> 0" and bc: "compareValue b c \<le> 0"
  shows "compareValue a c \<le> 0"
proof (cases "a = Undefined \<or> a = Null \<or> b = Undefined \<or> b = Null \<or> c = Undefined \<or> c = Null")
  case True
  with ab bc show ?thesis unfolding compareValue_le_iff by auto
next
  case False
  with assms(1,2) have t: "sameSupportedType a b" "sameSupportedType b c"
    by (auto simp: comparableValues_def)
  from False ab bc have "\<not> js_lt b a" "\<not> js_lt c b" unfolding compareValue_le_iff by auto
  with t assms(3-5) have "\<not> js_lt c a" by (rule js_le_trans)
  with False show ?thesis unfolding compareValue_le_iff by auto
qed

lemma compareField_range: "compareField a b p \<in> {-1, 0, 1}"
  unfolding compareField_def compareValue_def by auto

text \<open>
  The comparison by a list of conditions is transitive on a set of item objects when
  the field comparator is, for the path of every condition; it is, when the values of
  these fields can be compared and none is \<open>NaN\<close>.
\<close>

lemma compare_lexicographic_trans:
  assumes f: "\<And>d x y z. d \<in> set conds \<Longrightarrow> x \<in> S \<Longrightarrow> y \<in> S \<Longrightarrow> z \<in> S \<Longrightarrow>
      compareField x y (fieldName d) \<le> 0 \<Longrightarrow> compareField y z (fieldName d) \<le> 0 \<Longrightarrow>
      compareField x z (fieldName d) \<le> 0"
  shows "\<forall>a \<in> S. \<forall>b \<in> S. \<forall>c \<in> S.
           compare a b conds \<le> 0 \<and> compare b c conds \<le> 0 \<longrightarrow> compare a c conds \<le> 0"
  using f
proof (induction conds)
  case Nil
  show ?case by simp
next
  case (Cons d cs)
  have F: "compareField x z (fieldName d) \<le> 0"
    if "x \<in> S" "y \<in> S" "z \<in> S" "compareField x y (fieldName d) \<le> 0"
      "compareField y z (fieldName d) \<le> 0" for x y z
  proof -
    have "d \<in> set (d # cs)" by simp
    from Cons.prems [OF this that] show ?thesis .
  qed
  have IH: "\<forall>a \<in> S. \<forall>b \<in> S. \<forall>c \<in> S.
           compare a b cs \<le> 0 \<and> compare b c cs \<le> 0 \<longrightarrow> compare a c cs \<le> 0"
  proof (rule Cons.IH)
    fix e x y z
    assume "e \<in> set cs" and xyz: "x \<in> S" "y \<in> S" "z \<in> S"
      "compareField x y (fieldName e) \<le> 0" "compareField y z (fieldName e) \<le> 0"
    then have "e \<in> set (d # cs)" by simp
    from Cons.prems [OF this xyz] show "compareField x z (fieldName e) \<le> 0" .
  qed
  show ?case
  proof (intro ballI impI)
    fix a b c assume S: "a \<in> S" "b \<in> S" "c \<in> S"
    define u where "u = compareField a b (fieldName d)"
    define v where "v = compareField b c (fieldName d)"
    define w where "w = compareField a c (fieldName d)"
    have ba: "compareField b a (fieldName d) = - u"
      and cb: "compareField c b (fieldName d) = - v"
      and ca: "compareField c a (fieldName d) = - w"
      using compareField_antisym [of b a "fieldName d"] compareField_antisym [of c b "fieldName d"]
        compareField_antisym [of c a "fieldName d"] by (simp_all add: u_def v_def w_def)
    have r: "u \<in> {-1, 0, 1}" "v \<in> {-1, 0, 1}" "w \<in> {-1, 0, 1}"
      unfolding u_def v_def w_def by (rule compareField_range)+
    have f1: "u \<le> 0 \<Longrightarrow> v \<le> 0 \<Longrightarrow> w \<le> 0"
      using F [of a b c] S by (simp add: u_def v_def w_def)
    have f2: "- v \<le> 0 \<Longrightarrow> - u \<le> 0 \<Longrightarrow> - w \<le> 0"
      using F [of c b a] S by (simp add: ba cb ca)
    have f3: "- u \<le> 0 \<Longrightarrow> w \<le> 0 \<Longrightarrow> v \<le> 0"
      using F [of b a c] S ba by (simp add: v_def w_def)
    have f4: "w \<le> 0 \<Longrightarrow> - v \<le> 0 \<Longrightarrow> u \<le> 0"
      using F [of a c b] S cb by (simp add: u_def w_def)
    have f5: "v \<le> 0 \<Longrightarrow> - w \<le> 0 \<Longrightarrow> - u \<le> 0"
      using F [of b c a] S ca ba by (simp add: v_def)
    have f6: "- w \<le> 0 \<Longrightarrow> u \<le> 0 \<Longrightarrow> - v \<le> 0"
      using F [of c a b] S ca cb by (simp add: u_def)
    have ih: "compare a b cs \<le> 0 \<Longrightarrow> compare b c cs \<le> 0 \<Longrightarrow> compare a c cs \<le> 0"
      using IH S by blast
    have k1: "u = 0 \<Longrightarrow> w = v"
      using r f1 f2 f3 f4 f5 f6 by (elim insertE emptyE; simp)
    have k2: "v = 0 \<Longrightarrow> w = u"
      using r f1 f2 f3 f4 f5 f6 by (elim insertE emptyE; simp)
    have k3: "u = v \<Longrightarrow> w = u"
      using r f1 f2 f3 f4 f5 f6 by (elim insertE emptyE; simp)
    have A0: "compare a b (d # cs) =
        (if u = 0 then compare a b cs else if isAscendingOrder d then u else - u)"
      and B0: "compare b c (d # cs) =
        (if v = 0 then compare b c cs else if isAscendingOrder d then v else - v)"
      and C0: "compare a c (d # cs) =
        (if w = 0 then compare a c cs else if isAscendingOrder d then w else - w)"
      unfolding u_def v_def w_def by (simp_all only: compare.simps Let_def)
    assume "compare a b (d # cs) \<le> 0 \<and> compare b c (d # cs) \<le> 0"
    then have A: "(if u = 0 then compare a b cs else if isAscendingOrder d then u else - u) \<le> 0"
      and B: "(if v = 0 then compare b c cs else if isAscendingOrder d then v else - v) \<le> 0"
      unfolding A0 B0 by blast+
    have "(if w = 0 then compare a c cs else if isAscendingOrder d then w else - w) \<le> 0"
    proof (cases "u = 0")
      case u0: True
      show ?thesis
      proof (cases "v = 0")
        case True
        with u0 k1 A B ih show ?thesis by (simp split: if_splits)
      next
        case False
        with u0 k1 B show ?thesis by (simp split: if_splits)
      qed
    next
      case u1: False
      show ?thesis
      proof (cases "v = 0")
        case True
        with u1 k2 A show ?thesis by (simp split: if_splits)
      next
        case False
        with u1 A B r have "u = v" by (auto split: if_splits)
        with k3 u1 A show ?thesis by (simp split: if_splits)
      qed
    qed
    then show "compare a c (d # cs) \<le> 0" unfolding C0 .
  qed
qed

lemma fieldsComparable_values:
  assumes "fieldsComparable conds items" "d \<in> set conds" "a \<in> set items" "b \<in> set items"
  shows "comparableValues (getPropertyValueByNamePath a (fieldName d))
                          (getPropertyValueByNamePath b (fieldName d))"
    and "\<not> notANumber (getPropertyValueByNamePath a (fieldName d))"
proof -
  from assms(1,2) have "\<forall>a \<in> set items. \<forall>b \<in> set items.
        comparableValues (getPropertyValueByNamePath a (fieldName d))
                         (getPropertyValueByNamePath b (fieldName d)) \<and>
        \<not> notANumber (getPropertyValueByNamePath a (fieldName d))"
    unfolding fieldsComparable_def by (rule bspec)
  with assms(3,4) show "comparableValues (getPropertyValueByNamePath a (fieldName d))
                          (getPropertyValueByNamePath b (fieldName d))"
    and "\<not> notANumber (getPropertyValueByNamePath a (fieldName d))"
    by blast+
qed

lemma transitiveOn_fieldsComparable:
  assumes "fieldsComparable conds items"
  shows "transitiveOn conds items"
proof -
  have "compareField x z (fieldName d) \<le> 0"
    if m: "d \<in> set conds" "x \<in> set items" "y \<in> set items" "z \<in> set items"
      and le: "compareField x y (fieldName d) \<le> 0" "compareField y z (fieldName d) \<le> 0"
    for d x y z
    unfolding compareField_def
    using fieldsComparable_values(1) [OF assms m(1,2,3)]
      fieldsComparable_values(1) [OF assms m(1,3,4)]
      fieldsComparable_values(2) [OF assms m(1,2,2)]
      fieldsComparable_values(2) [OF assms m(1,3,3)]
      fieldsComparable_values(2) [OF assms m(1,4,4)]
      le [unfolded compareField_def]
    by (rule compareValue_trans)
  then have "\<forall>a \<in> set items. \<forall>b \<in> set items. \<forall>c \<in> set items.
           compare a b conds \<le> 0 \<and> compare b c conds \<le> 0 \<longrightarrow> compare a c conds \<le> 0"
    by (rule compare_lexicographic_trans [of conds "set items"])
  then show ?thesis unfolding transitiveOn_def .
qed

text \<open>
  C8, as stated, fails: 1, \<open>NaN\<close> and 0 are three values of the numeric type, the
  comparator answers 0 for 1 against \<open>NaN\<close> and for \<open>NaN\<close> against 0, and 1 for 1
  against 0.
\<close>

theorem compareField_not_transitive_NaN:
  "comparableValues (getPropertyValueByNamePath [(''v'', Num (Finite 1))] ''v'')
                    (getPropertyValueByNamePath [(''v'', Num NaN)] ''v'') \<and>
   comparableValues (getPropertyValueByNamePath [(''v'', Num NaN)] ''v'')
                    (getPropertyValueByNamePath [(''v'', Num (Finite 0))] ''v'') \<and>
   comparableValues (getPropertyValueByNamePath [(''v'', Num (Finite 1))] ''v'')
                    (getPropertyValueByNamePath [(''v'', Num (Finite 0))] ''v'') \<and>
   compareField [(''v'', Num (Finite 1))] [(''v'', Num NaN)] ''v'' \<le> 0 \<and>
   compareField [(''v'', Num NaN)] [(''v'', Num (Finite 0))] ''v'' \<le> 0 \<and>
   \<not> compareField [(''v'', Num (Finite 1))] [(''v'', Num (Finite 0))] ''v'' \<le> 0"
  by code_simp

text \<open>
  C8, amended: the field comparator is antisymmetric on all item objects, and it is
  transitive on item objects whose resolved values are neither \<open>NaN\<close> nor an invalid
  Date and are, two by two along the chain, of the same supported type or \<open>null\<close> or
  \<open>undefined\<close>.
\<close>

theorem compareField_antisymmetric_transitive:
  "compareField a b path = - compareField b a path \<and>
   (comparableValues (getPropertyValueByNamePath a path) (getPropertyValueByNamePath b path) \<and>
    comparableValues (getPropertyValueByNamePath b path) (getPropertyValueByNamePath c path) \<and>
    \<not> notANumber (getPropertyValueByNamePath a path) \<and>
    \<not> notANumber (getPropertyValueByNamePath b path) \<and>
    \<not> notANumber (getPropertyValueByNamePath c path) \<and>
    compareField a b path \<le> 0 \<and> compareField b c path \<le> 0
    \<longrightarrow> compareField a c path \<le> 0)"
proof
  show "compareField a b path = - compareField b a path"
    unfolding compareField_def by (rule compareValue_antisym)
next
  show "comparableValues (getPropertyValueByNamePath a path) (getPropertyValueByNamePath b path) \<and>
    comparableValues (getPropertyValueByNamePath b path) (getPropertyValueByNamePath c path) \<and>
    \<not> notANumber (getPropertyValueByNamePath a path) \<and>
    \<not> notANumber (getPropertyValueByNamePath b path) \<and>
    \<not> notANumber (getPropertyValueByNamePath c path) \<and>
    compareField a b path \<le> 0 \<and> compareField b c path \<le> 0
    \<longrightarrow> compareField a c path \<le> 0"
    unfolding compareField_def by (blast intro: compareValue_trans)
qed

theorem compareField_antisymmetric_transitive_witness:
  "compareField [(''v'', Null)] [(''v'', Num (Finite 1))] ''v'' =
     - compareField [(''v'', Num (Finite 1))] [(''v'', Null)] ''v'' \<and>
   compareField [(''v'', Null)] [(''v'', Num (Finite 1))] ''v'' \<le> 0 \<and>
   compareField [(''v'', Num (Finite 1))] [(''v'', Num (Finite 2))] ''v'' \<le> 0 \<and>
   compareField [(''v'', Null)] [(''v'', Num (Finite 2))] ''v'' \<le> 0"
proof -
  have h:
    "comparableValues (getPropertyValueByNamePath [(''v'', Null)] ''v'')
       (getPropertyValueByNamePath [(''v'', Num (Finite 1))] ''v'')"
    "comparableValues (getPropertyValueByNamePath [(''v'', Num (Finite 1))] ''v'')
       (getPropertyValueByNamePath [(''v'', Num (Finite 2))] ''v'')"
    "\<not> notANumber (getPropertyValueByNamePath [(''v'', Null)] ''v'')"
    "\<not> notANumber (getPropertyValueByNamePath [(''v'', Num (Finite 1))] ''v'')"
    "\<not> notANumber (getPropertyValueByNamePath [(''v'', Num (Finite 2))] ''v'')"
    "compareField [(''v'', Null)] [(''v'', Num (Finite 1))] ''v'' \<le> 0"
    "compareField [(''v'', Num (Finite 1))] [(''v'', Num (Finite 2))] ''v'' \<le> 0"
    by code_simp+
  from h compareField_antisymmetric_transitive
         [of "[(''v'', Null)]" "[(''v'', Num (Finite 1))]" "''v''" "[(''v'', Num (Finite 2))]"]
  show ?thesis by blast
qed

section \<open>parseCondition\<close>

lemma toLowerChar_eq:
  assumes "of_char l = (k::nat)" "97 \<le> k" "k \<le> 122"
  shows "toLowerChar c = l \<longleftrightarrow> (of_char c = k \<or> of_char c = k - 32)"
proof -
  have lt: "of_char c < (256::nat)" by simp
  have l: "l = char_of k" using assms(1) by (metis char_of_char)
  show ?thesis
  proof (cases "(65 \<le> (of_char c::nat) \<and> (of_char c::nat) \<le> 90) \<or>
                (192 \<le> (of_char c::nat) \<and> (of_char c::nat) \<le> 222 \<and> (of_char c::nat) \<noteq> 215)")
    case True
    then have "toLowerChar c = char_of (of_char c + 32 :: nat)"
      by (simp add: toLowerChar_def Let_def)
    then have "toLowerChar c = l \<longleftrightarrow> (of_char c + 32) mod 256 = k mod (256::nat)"
      by (simp add: l char_of_eq_iff take_bit_eq_mod)
    with True lt assms(2,3) show ?thesis by auto
  next
    case False
    then have "toLowerChar c = c" by (auto simp add: toLowerChar_def Let_def)
    then have "toLowerChar c = l \<longleftrightarrow> of_char c = k"
      using assms(1) by (metis of_char_eq_iff)
    with False assms(2,3) show ?thesis by auto
  qed
qed

lemma toLowerChar_d: "toLowerChar c = CHR ''d'' \<longleftrightarrow> c \<in> {CHR ''d'', CHR ''D''}"
proof -
  have "toLowerChar c = CHR ''d'' \<longleftrightarrow> (of_char c = (100::nat) \<or> of_char c = (100::nat) - 32)"
    by (rule toLowerChar_eq) simp_all
  also have "\<dots> \<longleftrightarrow> (of_char c = (of_char CHR ''d'' :: nat) \<or> of_char c = (of_char CHR ''D'' :: nat))"
    by simp
  finally show ?thesis by (simp only: of_char_eq_iff insert_iff empty_iff simp_thms)
qed

lemma toLowerChar_e: "toLowerChar c = CHR ''e'' \<longleftrightarrow> c \<in> {CHR ''e'', CHR ''E''}"
proof -
  have "toLowerChar c = CHR ''e'' \<longleftrightarrow> (of_char c = (101::nat) \<or> of_char c = (101::nat) - 32)"
    by (rule toLowerChar_eq) simp_all
  also have "\<dots> \<longleftrightarrow> (of_char c = (of_char CHR ''e'' :: nat) \<or> of_char c = (of_char CHR ''E'' :: nat))"
    by simp
  finally show ?thesis by (simp only: of_char_eq_iff insert_iff empty_iff simp_thms)
qed

lemma toLowerChar_s: "toLowerChar c = CHR ''s'' \<longleftrightarrow> c \<in> {CHR ''s'', CHR ''S''}"
proof -
  have "toLowerChar c = CHR ''s'' \<longleftrightarrow> (of_char c = (115::nat) \<or> of_char c = (115::nat) - 32)"
    by (rule toLowerChar_eq) simp_all
  also have "\<dots> \<longleftrightarrow> (of_char c = (of_char CHR ''s'' :: nat) \<or> of_char c = (of_char CHR ''S'' :: nat))"
    by simp
  finally show ?thesis by (simp only: of_char_eq_iff insert_iff empty_iff simp_thms)
qed

lemma toLowerChar_c: "toLowerChar c = CHR ''c'' \<longleftrightarrow> c \<in> {CHR ''c'', CHR ''C''}"
proof -
  have "toLowerChar c = CHR ''c'' \<longleftrightarrow> (of_char c = (99::nat) \<or> of_char c = (99::nat) - 32)"
    by (rule toLowerChar_eq) simp_all
  also have "\<dots> \<longleftrightarrow> (of_char c = (of_char CHR ''c'' :: nat) \<or> of_char c = (of_char CHR ''C'' :: nat))"
    by simp
  finally show ?thesis by (simp only: of_char_eq_iff insert_iff empty_iff simp_thms)
qed

lemma four_letters: "length m = 4 \<Longrightarrow> m = [m ! 0, m ! 1, m ! 2, m ! 3]"
  by (cases m; simp; cases "tl m"; simp; cases "tl (tl m)"; simp; cases "tl (tl (tl m))"; simp)

lemma endsWith_desc: "endsWith (toLowerCase t) ''desc'' \<longleftrightarrow> descMarked t"
proof (cases "4 \<le> length t")
  case False
  then show ?thesis by (simp add: endsWith_def descMarked_def toLowerCase_def)
next
  case True
  define m where "m = drop (length t - 4) t"
  have len: "length m = 4" using True by (simp add: m_def)
  have m: "m = [m ! 0, m ! 1, m ! 2, m ! 3]" using len by (rule four_letters)
  have "endsWith (toLowerCase t) ''desc'' \<longleftrightarrow> map toLowerChar m = ''desc''"
    using True by (simp add: endsWith_def toLowerCase_def m_def drop_map eval_nat_numeral)
  also have "\<dots> \<longleftrightarrow> map toLowerChar [m ! 0, m ! 1, m ! 2, m ! 3] = ''desc''"
    using m by simp
  also have "\<dots> \<longleftrightarrow> descMarked t"
    using True
    by (simp add: descMarked_def Let_def m_def [symmetric] toLowerChar_d toLowerChar_e
        toLowerChar_s toLowerChar_c del: insert_iff)
  finally show ?thesis .
qed

lemma parseSegments_map:
  "parseSegments segments conditions = conditions @ map tokenCondition segments"
  by (induction segments arbitrary: conditions)
     (simp_all add: Let_def endsWith_desc tokenCondition_def substring_def)

lemma parseCondition_map: "parseCondition e = map tokenCondition (tokens e)"
  by (simp add: parseCondition_def tokens_def parseSegments_map)

text \<open>
  C6: \<open>parseCondition\<close> returns one order field per token of the expression; a trimmed
  token that carries the marker gives a descending field whose path is the token
  without its last four letters, trimmed again, and a trimmed token without the marker
  gives an ascending field whose path is the token. The three expressions of the spec
  parse as it says.
\<close>

theorem parseCondition_tokens:
  "length (parseCondition e) = length (tokens e) \<and>
   (\<forall>i < length (tokens e).
      (descMarked (trim (tokens e ! i)) \<longrightarrow>
         parseCondition e ! i =
           \<lparr>fieldName = trim (take (length (trim (tokens e ! i)) - 4) (trim (tokens e ! i))),
            isAscendingOrder = False\<rparr>) \<and>
      (\<not> descMarked (trim (tokens e ! i)) \<longrightarrow>
         parseCondition e ! i = \<lparr>fieldName = trim (tokens e ! i), isAscendingOrder = True\<rparr>)) \<and>
   parseCondition ''field DESC'' = [\<lparr>fieldName = ''field'', isAscendingOrder = False\<rparr>] \<and>
   parseCondition ''field'' = [\<lparr>fieldName = ''field'', isAscendingOrder = True\<rparr>] \<and>
   parseCondition ''a DESC, b'' =
     [\<lparr>fieldName = ''a'', isAscendingOrder = False\<rparr>,
      \<lparr>fieldName = ''b'', isAscendingOrder = True\<rparr>]"
proof (intro conjI)
  show "length (parseCondition e) = length (tokens e)"
    by (simp add: parseCondition_map)
  show "\<forall>i < length (tokens e).
      (descMarked (trim (tokens e ! i)) \<longrightarrow>
         parseCondition e ! i =
           \<lparr>fieldName = trim (take (length (trim (tokens e ! i)) - 4) (trim (tokens e ! i))),
            isAscendingOrder = False\<rparr>) \<and>
      (\<not> descMarked (trim (tokens e ! i)) \<longrightarrow>
         parseCondition e ! i = \<lparr>fieldName = trim (tokens e ! i), isAscendingOrder = True\<rparr>)"
    by (simp add: parseCondition_map tokenCondition_def Let_def)
  show "parseCondition ''field DESC'' = [\<lparr>fieldName = ''field'', isAscendingOrder = False\<rparr>]"
    by code_simp
  show "parseCondition ''field'' = [\<lparr>fieldName = ''field'', isAscendingOrder = True\<rparr>]"
    by code_simp
  show "parseCondition ''a DESC, b'' =
     [\<lparr>fieldName = ''a'', isAscendingOrder = False\<rparr>,
      \<lparr>fieldName = ''b'', isAscendingOrder = True\<rparr>]"
    by code_simp
qed

theorem parseCondition_tokens_witness:
  "length (parseCondition ''size desc,name'') = 2 \<and>
   parseCondition ''size desc,name'' ! 0 = \<lparr>fieldName = ''size'', isAscendingOrder = False\<rparr> \<and>
   parseCondition ''size desc,name'' ! 1 = \<lparr>fieldName = ''name'', isAscendingOrder = True\<rparr>"
proof -
  have t: "tokens ''size desc,name'' = [''size desc'', ''name'']" by code_simp
  have d: "descMarked (trim ''size desc'')" "\<not> descMarked (trim ''name'')" by code_simp+
  have f: "trim (take (length (trim ''size desc'') - 4) (trim ''size desc'')) = ''size''"
    "trim ''name'' = ''name''" by code_simp+
  from parseCondition_tokens [of "''size desc,name''"]
  have "length (parseCondition ''size desc,name'') = 2"
    and "\<forall>i < 2.
      (descMarked (trim ([''size desc'', ''name''] ! i)) \<longrightarrow>
         parseCondition ''size desc,name'' ! i =
           \<lparr>fieldName = trim (take (length (trim ([''size desc'', ''name''] ! i)) - 4)
                                 (trim ([''size desc'', ''name''] ! i))),
            isAscendingOrder = False\<rparr>) \<and>
      (\<not> descMarked (trim ([''size desc'', ''name''] ! i)) \<longrightarrow>
         parseCondition ''size desc,name'' ! i =
           \<lparr>fieldName = trim ([''size desc'', ''name''] ! i), isAscendingOrder = True\<rparr>)"
    unfolding t by simp_all
  from this(1) this(2) [rule_format, of 0] this(2) [rule_format, of 1] d f
  show ?thesis by simp
qed

section \<open>The order of \<open>undefined\<close> and \<open>null\<close>\<close>

lemma sort_four_ascending:
  "\<forall>a \<in> set [0,1,2,3]. \<forall>b \<in> set [0,1,2,3]. \<forall>c \<in> set [0,1,2,3]. \<forall>d \<in> set [0,1,2,3].
     distinct [a, b, c, d] \<longrightarrow>
     sortedChildren [a, b, c, d] (parseCondition ''v'') nullOrderItem = (Inr (), [0,1,2,3])"
  by code_simp

lemma sort_four_descending:
  "\<forall>a \<in> set [0,1,2,3]. \<forall>b \<in> set [0,1,2,3]. \<forall>c \<in> set [0,1,2,3]. \<forall>d \<in> set [0,1,2,3].
     distinct [a, b, c, d] \<longrightarrow>
     sortedChildren [a, b, c, d] (parseCondition ''v DESC'') nullOrderItem = (Inr (), [3,2,1,0])"
  by code_simp

lemma four_elements:
  assumes "distinct (xs::nat list)" "set xs = {0, 1, 2, 3}"
  obtains a b c d where "xs = [a, b, c, d]" "a \<in> set [0,1,2,3]" "b \<in> set [0,1,2,3]"
    "c \<in> set [0,1,2,3]" "d \<in> set [0,1,2,3]"
proof -
  have "length xs = card (set xs)" using assms(1) by (simp add: distinct_card)
  also have "\<dots> = 4" unfolding assms(2) by simp
  finally have "length xs = 4" .
  then obtain a b c d where xs: "xs = [a, b, c, d]"
    by (auto simp: eval_nat_numeral length_Suc_conv)
  have "a \<in> set xs" "b \<in> set xs" "c \<in> set xs" "d \<in> set xs"
    by (simp_all add: xs)
  then have "a \<in> set [0,1,2,3]" "b \<in> set [0,1,2,3]" "c \<in> set [0,1,2,3]" "d \<in> set [0,1,2,3]"
    unfolding assms(2) by simp_all
  with xs show thesis by (rule that)
qed

lemma sort_null_order:
  assumes "distinct (xs::nat list)" "set xs = {0, 1, 2, 3}"
  shows "sortedChildren xs (parseCondition ''v'') nullOrderItem = (Inr (), [0,1,2,3])"
    and "sortedChildren xs (parseCondition ''v DESC'') nullOrderItem = (Inr (), [3,2,1,0])"
proof -
  from assms obtain a b c d where xs: "xs = [a, b, c, d]"
    and m: "a \<in> set [0,1,2,3]" "b \<in> set [0,1,2,3]" "c \<in> set [0,1,2,3]" "d \<in> set [0,1,2,3]"
    by (rule four_elements)
  have d: "distinct [a, b, c, d]" using assms(1) by (simp only: xs)
  from sort_four_ascending m d
  show "sortedChildren xs (parseCondition ''v'') nullOrderItem = (Inr (), [0,1,2,3])"
    unfolding xs by blast
  from sort_four_descending m d
  show "sortedChildren xs (parseCondition ''v DESC'') nullOrderItem = (Inr (), [3,2,1,0])"
    unfolding xs by blast
qed

text \<open>
  C7: the field comparator decides on \<open>undefined\<close> first, then on \<open>null\<close>, before it
  compares the values: two \<open>undefined\<close> are equal and an \<open>undefined\<close> side is the
  smaller one; between values that are not \<open>undefined\<close>, two \<open>null\<close> are equal and a
  \<open>null\<close> side is the smaller one. With \<open>sortElements\<close>, four elements whose field is
  \<open>undefined\<close>, \<open>null\<close>, 1 and 2 (the elements 0, 1, 2, 3 of \<open>nullOrderItem\<close>) end
  in this order for the ascending field and in the opposite order for the descending
  field, whatever order they start in.
\<close>

theorem compareField_null_policy:
  "(let l = getPropertyValueByNamePath a path; r = getPropertyValueByNamePath b path in
      (l = Undefined \<and> r = Undefined \<longrightarrow> compareField a b path = 0) \<and>
      (l = Undefined \<and> r \<noteq> Undefined \<longrightarrow> compareField a b path = -1) \<and>
      (l \<noteq> Undefined \<and> r = Undefined \<longrightarrow> compareField a b path = 1) \<and>
      (l = Null \<and> r = Null \<longrightarrow> compareField a b path = 0) \<and>
      (l = Null \<and> r \<noteq> Undefined \<and> r \<noteq> Null \<longrightarrow> compareField a b path = -1) \<and>
      (l \<noteq> Undefined \<and> l \<noteq> Null \<and> r = Null \<longrightarrow> compareField a b path = 1)) \<and>
   (distinct xs \<and> set xs = {0, 1, 2, 3} \<longrightarrow>
      sortedChildren xs (parseCondition ''v'') nullOrderItem = (Inr (), [0, 1, 2, 3]) \<and>
      sortedChildren xs (parseCondition ''v DESC'') nullOrderItem = (Inr (), [3, 2, 1, 0]))"
proof
  show "let l = getPropertyValueByNamePath a path; r = getPropertyValueByNamePath b path in
      (l = Undefined \<and> r = Undefined \<longrightarrow> compareField a b path = 0) \<and>
      (l = Undefined \<and> r \<noteq> Undefined \<longrightarrow> compareField a b path = -1) \<and>
      (l \<noteq> Undefined \<and> r = Undefined \<longrightarrow> compareField a b path = 1) \<and>
      (l = Null \<and> r = Null \<longrightarrow> compareField a b path = 0) \<and>
      (l = Null \<and> r \<noteq> Undefined \<and> r \<noteq> Null \<longrightarrow> compareField a b path = -1) \<and>
      (l \<noteq> Undefined \<and> l \<noteq> Null \<and> r = Null \<longrightarrow> compareField a b path = 1)"
    by (simp add: Let_def compareField_def compareValue_def)
next
  show "distinct xs \<and> set xs = {0, 1, 2, 3} \<longrightarrow>
      sortedChildren xs (parseCondition ''v'') nullOrderItem = (Inr (), [0, 1, 2, 3]) \<and>
      sortedChildren xs (parseCondition ''v DESC'') nullOrderItem = (Inr (), [3, 2, 1, 0])"
    using sort_null_order by blast
qed

theorem compareField_null_policy_witness:
  "compareField [] [(''v'', Null)] ''v'' = -1 \<and>
   sortedChildren [2, 0, 3, 1] (parseCondition ''v'') nullOrderItem = (Inr (), [0, 1, 2, 3]) \<and>
   sortedChildren [2, 0, 3, 1] (parseCondition ''v DESC'') nullOrderItem = (Inr (), [3, 2, 1, 0])"
proof -
  have h: "getPropertyValueByNamePath [] ''v'' = Undefined"
    "getPropertyValueByNamePath [(''v'', Null)] ''v'' = Null"
    by code_simp+
  have s: "distinct [2, 0, 3, 1 :: nat]" "set [2, 0, 3, 1 :: nat] = {0, 1, 2, 3}"
    by auto
  from compareField_null_policy [of "[]" "''v''" "[(''v'', Null)]" "[2, 0, 3, 1]"] h s
  show ?thesis by (simp add: Let_def)
qed

section \<open>insertElement\<close>

declare findPositionFrom.simps [simp del]

lemma findPositionFrom_cases:
  "(findPositionFrom items x conds idx = -1 \<and>
      (\<forall>j. idx \<le> j \<and> j < length items \<longrightarrow> \<not> compare x (items ! j) conds < 0)) \<or>
   (\<exists>k. findPositionFrom items x conds idx = int k \<and> idx \<le> k \<and> k < length items \<and>
      compare x (items ! k) conds < 0 \<and>
      (\<forall>j. idx \<le> j \<and> j < k \<longrightarrow> \<not> compare x (items ! j) conds < 0))"
proof (induction items x conds idx rule: findPositionFrom.induct)
  case (1 items x conds idx)
  show ?case
  proof (cases "idx < length items")
    case False
    then show ?thesis by (simp add: findPositionFrom.simps [of items x conds idx])
  next
    case True
    show ?thesis
    proof (cases "compare x (items ! idx) conds < 0")
      case lt: True
      with True have "findPositionFrom items x conds idx = int idx"
        by (simp add: findPositionFrom.simps [of items x conds idx])
      with True lt show ?thesis by auto
    next
      case ge: False
      with True have eq: "findPositionFrom items x conds idx = findPositionFrom items x conds (idx + 1)"
        by (simp add: findPositionFrom.simps [of items x conds idx])
      from "1.IH" [OF True refl ge]
      show ?thesis
      proof (elim disjE exE conjE)
        assume n: "findPositionFrom items x conds (idx + 1) = - 1"
          and a: "\<forall>j. idx + 1 \<le> j \<and> j < length items \<longrightarrow> \<not> compare x (items ! j) conds < 0"
        have "\<forall>j. idx \<le> j \<and> j < length items \<longrightarrow> \<not> compare x (items ! j) conds < 0"
        proof (intro allI impI)
          fix j assume j: "idx \<le> j \<and> j < length items"
          show "\<not> compare x (items ! j) conds < 0"
          proof (cases "j = idx")
            case True with ge show ?thesis by simp
          next
            case False with j have "idx + 1 \<le> j \<and> j < length items" by simp
            with a show ?thesis by blast
          qed
        qed
        with n show ?thesis unfolding eq by blast
      next
        fix k
        assume n: "findPositionFrom items x conds (idx + 1) = int k"
          and k: "idx + 1 \<le> k" "k < length items" "compare x (items ! k) conds < 0"
          and a: "\<forall>j. idx + 1 \<le> j \<and> j < k \<longrightarrow> \<not> compare x (items ! j) conds < 0"
        have "\<forall>j. idx \<le> j \<and> j < k \<longrightarrow> \<not> compare x (items ! j) conds < 0"
        proof (intro allI impI)
          fix j assume j: "idx \<le> j \<and> j < k"
          show "\<not> compare x (items ! j) conds < 0"
          proof (cases "j = idx")
            case True with ge show ?thesis by simp
          next
            case False with j have "idx + 1 \<le> j \<and> j < k" by simp
            with a show ?thesis by blast
          qed
        qed
        moreover from k(1) have "idx \<le> k" by simp
        ultimately show ?thesis unfolding eq using n k by blast
      qed
    qed
  qed
qed

lemma insertionIndex_le: "insertionIndex items x conds \<le> length items"
  using findPositionFrom_cases [of items x conds 0]
  by (auto simp: insertionIndex_def findPosition_def Let_def)

lemma insertionIndex_before:
  "j < insertionIndex items x conds \<Longrightarrow> \<not> compare x (items ! j) conds < 0"
proof (cases "conds = []")
  case True
  then show ?thesis by simp
next
  case False
  assume "j < insertionIndex items x conds"
  with False findPositionFrom_cases [of items x conds 0] show ?thesis
    by (auto simp: insertionIndex_def findPosition_def Let_def split: if_splits)
qed

lemma insertionIndex_at:
  "insertionIndex items x conds < length items \<Longrightarrow>
   conds \<noteq> [] \<and> compare x (items ! insertionIndex items x conds) conds < 0"
  using findPositionFrom_cases [of items x conds 0]
  by (auto simp: insertionIndex_def findPosition_def Let_def split: if_splits)

lemma insertionIndex_no_conditions: "insertionIndex items x [] = length items"
  by (simp add: insertionIndex_def findPosition_def)

lemma findPosition_index:
  "findPosition items x conds = -1 \<and> insertionIndex items x conds = length items \<or>
   findPosition items x conds = int (insertionIndex items x conds) \<and>
     insertionIndex items x conds < length items"
  using findPositionFrom_cases [of items x conds 0]
  by (auto simp: insertionIndex_def findPosition_def Let_def split: if_splits)

lemma mapElements_Inr: "mapElements f xs = Inr ys \<longleftrightarrow> map f xs = map Inr ys"
proof (induction xs arbitrary: ys)
  case Nil
  show ?case by auto
next
  case (Cons x xs)
  show ?case
  proof (cases "f x")
    case (Inl e)
    then show ?thesis by (cases ys) auto
  next
    case (Inr y)
    show ?thesis
    proof (cases "mapElements f xs")
      case (Inl e)
      with Cons [of "tl ys"] Inr show ?thesis by (cases ys) auto
    next
      case r: (Inr zs)
      with Cons [of zs] Cons [of "tl ys"] Inr show ?thesis by (cases ys) auto
    qed
  qed
qed

lemma mapElements_length: "mapElements f xs = Inr ys \<Longrightarrow> length ys = length xs"
  unfolding mapElements_Inr by (metis length_map)

lemma mapElements_nth: "mapElements f xs = Inr ys \<Longrightarrow> i < length xs \<Longrightarrow> f (xs ! i) = Inr (ys ! i)"
  unfolding mapElements_Inr by (metis length_map nth_map)

lemma mapElements_splice:
  "mapElements f xs = Inr ys \<Longrightarrow> f h = Inr x \<Longrightarrow>
   mapElements f (splice xs k h) = Inr (splice ys k x)"
proof -
  assume "mapElements f xs = Inr ys" and h: "f h = Inr x"
  then have m: "map f xs = map Inr ys" by (simp add: mapElements_Inr)
  have "map f (take k xs) = take k (map f xs)" "map f (drop k xs) = drop k (map f xs)"
    by (simp_all add: take_map drop_map)
  with m have "map f (take k xs) = map Inr (take k ys)" "map f (drop k xs) = map Inr (drop k ys)"
    by (simp_all add: take_map drop_map)
  with h show ?thesis by (simp add: mapElements_Inr splice_def)
qed

lemma takeWhile_distinct_nth:
  "distinct xs \<Longrightarrow> k < length xs \<Longrightarrow> takeWhile (\<lambda>x. x \<noteq> xs ! k) xs = take k xs"
proof (induction xs arbitrary: k)
  case Nil
  then show ?case by simp
next
  case (Cons a xs)
  show ?case
  proof (cases k)
    case 0
    then show ?thesis by simp
  next
    case (Suc j)
    with Cons.prems have "xs ! j \<in> set xs" by simp
    with Cons.prems have "a \<noteq> xs ! j" by auto
    with Cons Suc show ?thesis by simp
  qed
qed

lemma dropWhile_distinct_nth:
  "distinct xs \<Longrightarrow> k < length xs \<Longrightarrow> dropWhile (\<lambda>x. x \<noteq> xs ! k) xs = drop k xs"
proof (induction xs arbitrary: k)
  case Nil
  then show ?case by simp
next
  case (Cons a xs)
  show ?case
  proof (cases k)
    case 0
    then show ?thesis by simp
  next
    case (Suc j)
    with Cons.prems have "xs ! j \<in> set xs" by simp
    with Cons.prems have "a \<noteq> xs ! j" by auto
    with Cons Suc show ?thesis by simp
  qed
qed

lemma insertBefore_mirror:
  assumes "childNodes c = les" "distinct les" "h \<notin> set les" "k \<le> length les"
  shows "insertBefore c h (elementAt les k) =
           Inr \<lparr>childNodes = splice les k h,
                insertBeforeCalls = insertBeforeCalls c @ [(h, elementAt les k)]\<rparr>"
proof (cases "k < length les")
  case False
  with assms show ?thesis by (simp add: insertBefore_def elementAt_def splice_def)
next
  case True
  then have r: "les ! k \<in> set les" by simp
  with assms(3) have ne: "les ! k \<noteq> h" by auto
  from assms(3) have rm: "removeAll h les = les" by simp
  from True r ne show ?thesis
    by (simp add: insertBefore_def elementAt_def splice_def assms(1) rm Let_def
        takeWhile_distinct_nth [OF assms(2) True] dropWhile_distinct_nth [OF assms(2) True])
qed

lemma insertEach_step:
  assumes "length les = length items" "f h = Inr x"
  shows "insertEach conds f (h # hs) items c les =
     (case insertBefore c h (elementAt les (insertionIndex items x conds)) of
        Inl e \<Rightarrow> (Inl e, c, les)
      | Inr c' \<Rightarrow>
          insertEach conds f hs (splice items (insertionIndex items x conds) x) c'
            (splice les (insertionIndex items x conds) h))"
proof -
  define k where "k = insertionIndex items x conds"
  from findPosition_index [of items x conds]
  consider "findPosition items x conds = -1" "k = length items"
    | "findPosition items x conds = int k" "k < length items"
    unfolding k_def by blast
  then show ?thesis
  proof cases
    case 1
    then show ?thesis
      using assms unfolding k_def [symmetric]
      by (simp add: Let_def elementAt_def splice_def cong: sum.case_cong)
  next
    case 2
    then show ?thesis
      using assms unfolding k_def [symmetric]
      by (simp add: Let_def elementAt_def splice_def cong: sum.case_cong)
  qed
qed

lemma nonDecreasing_successively:
  "nonDecreasing conds items = successively (\<lambda>a b. compare a b conds \<le> 0) items"
  by (induction conds items rule: nonDecreasing.induct) (auto simp: not_less)

lemma nonDecreasing_splice:
  assumes "nonDecreasing conds items"
  shows "nonDecreasing conds (splice items (insertionIndex items x conds) x)"
proof -
  define k where "k = insertionIndex items x conds"
  define P where "P = (\<lambda>a b. compare a b conds \<le> 0)"
  have k: "k \<le> length items" unfolding k_def by (rule insertionIndex_le)
  from assms have s: "successively P items" by (simp add: nonDecreasing_successively P_def)
  have "successively P (take k items @ drop k items)" using s by simp
  then have tk: "successively P (take k items)" and dk: "successively P (drop k items)"
    unfolding successively_append_iff by simp_all
  have left: "take k items = [] \<or> P (last (take k items)) x"
  proof (cases "k = 0")
    case True
    then show ?thesis by simp
  next
    case False
    with k have "take k items \<noteq> []" "length (take k items) = k" by auto
    with False have "last (take k items) = items ! (k - 1)"
      by (simp add: last_conv_nth)
    moreover from False have "k - 1 < insertionIndex items x conds" by (simp add: k_def)
    then have "\<not> compare x (items ! (k - 1)) conds < 0" by (rule insertionIndex_before)
    then have "compare (items ! (k - 1)) x conds \<le> 0"
      using compare_antisym [of x "items ! (k - 1)" conds] by simp
    ultimately show ?thesis by (simp add: P_def)
  qed
  have right: "drop k items = [] \<or> P x (hd (drop k items))"
  proof (cases "k < length items")
    case False
    then show ?thesis by simp
  next
    case True
    then have "hd (drop k items) = items ! k" by (simp add: hd_drop_conv_nth)
    moreover from True have "compare x (items ! k) conds < 0"
      using insertionIndex_at [of items x conds] by (simp add: k_def)
    ultimately show ?thesis by (simp add: P_def)
  qed
  have "successively P (x # drop k items)" using dk right by (simp add: successively_Cons)
  with tk left have "successively P (take k items @ x # drop k items)"
    unfolding successively_append_iff by simp
  then show ?thesis by (simp add: nonDecreasing_successively P_def splice_def k_def)
qed

lemma mirrorNonDecreasing_iff:
  "mirrorNonDecreasing conds f les \<longleftrightarrow>
     (\<exists>items. mapElements f les = Inr items \<and> nonDecreasing conds items)"
  by (cases "mapElements f les") (simp_all add: mirrorNonDecreasing_def)

lemma insertEach_nonDecreasing:
  assumes "mapElements f les = Inr items" "nonDecreasing conds items"
  shows "mirrorNonDecreasing conds f (snd (snd (insertEach conds f adds items c les)))"
  using assms
proof (induction adds arbitrary: items c les)
  case Nil
  then show ?case by (auto simp: mirrorNonDecreasing_iff)
next
  case (Cons h hs)
  have keep: "mirrorNonDecreasing conds f les"
    using Cons.prems by (auto simp: mirrorNonDecreasing_iff)
  show ?case
  proof (cases "f h")
    case (Inl e)
    with keep show ?thesis by simp
  next
    case (Inr x)
    define k where "k = insertionIndex items x conds"
    have len: "length les = length items" using Cons.prems(1) by (simp add: mapElements_length)
    have step: "insertEach conds f (h # hs) items c les =
     (case insertBefore c h (elementAt les k) of
        Inl e \<Rightarrow> (Inl e, c, les)
      | Inr c' \<Rightarrow> insertEach conds f hs (splice items k x) c' (splice les k h))"
      unfolding k_def using len Inr by (rule insertEach_step)
    show ?thesis
    proof (cases "insertBefore c h (elementAt les k)")
      case (Inl e)
      with step keep show ?thesis by simp
    next
      case r: (Inr c')
      have m: "mapElements f (splice les k h) = Inr (splice items k x)"
        using Cons.prems(1) Inr by (rule mapElements_splice)
      have n: "nonDecreasing conds (splice items k x)"
        unfolding k_def using Cons.prems(2) by (rule nonDecreasing_splice)
      from Cons.IH [OF m n] step r show ?thesis by simp
    qed
  qed
qed

lemma insertElement_nonDecreasing:
  assumes "mirrorNonDecreasing conds f les"
  shows "mirrorNonDecreasing conds f (snd (snd (insertElement c les adds conds f)))"
proof -
  from assms obtain items where i: "mapElements f les = Inr items" "nonDecreasing conds items"
    by (auto simp: mirrorNonDecreasing_iff)
  then show ?thesis
    using insertEach_nonDecreasing [OF i, of adds c] by (simp add: insertElement_def)
qed

lemma insertCalls_nonDecreasing:
  "mirrorNonDecreasing conds f les \<Longrightarrow>
   mirrorNonDecreasing conds f (snd (insertCalls c les calls conds f))"
proof (induction calls arbitrary: c les)
  case Nil
  then show ?case by simp
next
  case (Cons adds calls)
  obtain out c' les' where r: "insertElement c les adds conds f = (out, c', les')"
    by (cases "insertElement c les adds conds f") auto
  from insertElement_nonDecreasing [OF Cons.prems, of c adds] r
  have "mirrorNonDecreasing conds f les'" by simp
  from Cons.IH [OF this, of c'] r show ?case by simp
qed

lemma insertElement_first:
  assumes m: "mapElements f les = Inr items" and x: "f h = Inr x"
    and c: "childNodes c = les" "distinct les" "h \<notin> set les"
  shows "insertElement c les (h # adds) conds f =
           insertElement
             \<lparr>childNodes = splice les (insertionIndex items x conds) h,
              insertBeforeCalls = insertBeforeCalls c @
                [(h, elementAt les (insertionIndex items x conds))]\<rparr>
             (splice les (insertionIndex items x conds) h) adds conds f"
proof -
  define k where "k = insertionIndex items x conds"
  have len: "length les = length items" using m by (simp add: mapElements_length)
  have k: "k \<le> length les" unfolding k_def len by (rule insertionIndex_le)
  have step: "insertEach conds f (h # adds) items c les =
     (case insertBefore c h (elementAt les k) of
        Inl e \<Rightarrow> (Inl e, c, les)
      | Inr c' \<Rightarrow> insertEach conds f adds (splice items k x) c' (splice les k h))"
    unfolding k_def using len x by (rule insertEach_step)
  have ib: "insertBefore c h (elementAt les k) =
      Inr \<lparr>childNodes = splice les k h,
           insertBeforeCalls = insertBeforeCalls c @ [(h, elementAt les k)]\<rparr>"
    using c k by (rule insertBefore_mirror)
  have m': "mapElements f (splice les k h) = Inr (splice items k x)"
    using m x by (rule mapElements_splice)
  show ?thesis
    unfolding k_def [symmetric] by (simp add: insertElement_def m m' step ib del: insertEach.simps)
qed

lemma insertElement_none: "mapElements f les = Inr items \<Longrightarrow> insertElement c les [] conds f = (Inr (), c, les)"
  by (simp add: insertElement_def)

text \<open>
  C3: a new element whose mapping succeeds, given to \<open>insertElement\<close> with a
  container that holds the elements of the array in the array's order, goes to an index
  k of both: no item object before k is greater than the new one (the comparison of the
  new one with it is not negative), and k is either the end or the index of an item
  object the new one is smaller than, so k is the first such index, or the end when
  there is none or when there are no conditions. The further new elements are then
  inserted into the array and container so updated. With no conditions, the new
  elements are appended in their order.
\<close>

theorem insertElement_first_smaller:
  "(mapElements f les = Inr items \<and> f h = Inr x \<and> childNodes c = les \<and> distinct les \<and>
    h \<notin> set les \<longrightarrow>
      (\<exists>k \<le> length les.
         insertElement c les (h # adds) conds f =
           insertElement
             \<lparr>childNodes = take k les @ h # drop k les,
              insertBeforeCalls = insertBeforeCalls c @ [(h, elementAt les k)]\<rparr>
             (take k les @ h # drop k les) adds conds f \<and>
         insertElement c les [h] conds f =
           (Inr (),
            \<lparr>childNodes = take k les @ h # drop k les,
             insertBeforeCalls = insertBeforeCalls c @ [(h, elementAt les k)]\<rparr>,
            take k les @ h # drop k les) \<and>
         (\<forall>j < k. \<not> compare x (items ! j) conds < 0) \<and>
         (k < length les \<longrightarrow> conds \<noteq> [] \<and> compare x (items ! k) conds < 0) \<and>
         (conds = [] \<longrightarrow> k = length les))) \<and>
   (mapElements f les = Inr items \<and> mapElements f news = Inr xs \<and> childNodes c = les \<and>
    distinct (les @ news) \<longrightarrow>
      fst (insertElement c les news [] f) = Inr () \<and>
      childNodes (fst (snd (insertElement c les news [] f))) = les @ news \<and>
      snd (snd (insertElement c les news [] f)) = les @ news)"
proof (intro conjI impI)
  assume a: "mapElements f les = Inr items \<and> f h = Inr x \<and> childNodes c = les \<and> distinct les \<and>
    h \<notin> set les"
  define k where "k = insertionIndex items x conds"
  have len: "length les = length items" using a by (auto dest: mapElements_length)
  have k: "k \<le> length les" unfolding k_def len by (rule insertionIndex_le)
  have m': "mapElements f (splice les k h) = Inr (splice items k x)"
    using a by (simp add: mapElements_splice)
  have 1: "insertElement c les (h # adds) conds f =
           insertElement
             \<lparr>childNodes = take k les @ h # drop k les,
              insertBeforeCalls = insertBeforeCalls c @ [(h, elementAt les k)]\<rparr>
             (take k les @ h # drop k les) adds conds f" for adds
    using a insertElement_first [of f les items h x c adds conds]
    by (simp add: k_def splice_def)
  have 2: "insertElement c les [h] conds f =
           (Inr (),
            \<lparr>childNodes = take k les @ h # drop k les,
             insertBeforeCalls = insertBeforeCalls c @ [(h, elementAt les k)]\<rparr>,
            take k les @ h # drop k les)"
    unfolding 1 using m' by (simp add: insertElement_none splice_def)
  have 3: "\<forall>j < k. \<not> compare x (items ! j) conds < 0"
    unfolding k_def by (simp add: insertionIndex_before)
  have 4: "k < length les \<longrightarrow> conds \<noteq> [] \<and> compare x (items ! k) conds < 0"
    unfolding k_def len using insertionIndex_at [of items x conds] by blast
  have 5: "conds = [] \<longrightarrow> k = length les"
    unfolding k_def len by (simp add: insertionIndex_no_conditions)
  from k 1 2 3 4 5
  show "\<exists>k \<le> length les.
         insertElement c les (h # adds) conds f =
           insertElement
             \<lparr>childNodes = take k les @ h # drop k les,
              insertBeforeCalls = insertBeforeCalls c @ [(h, elementAt les k)]\<rparr>
             (take k les @ h # drop k les) adds conds f \<and>
         insertElement c les [h] conds f =
           (Inr (),
            \<lparr>childNodes = take k les @ h # drop k les,
             insertBeforeCalls = insertBeforeCalls c @ [(h, elementAt les k)]\<rparr>,
            take k les @ h # drop k les) \<and>
         (\<forall>j < k. \<not> compare x (items ! j) conds < 0) \<and>
         (k < length les \<longrightarrow> conds \<noteq> [] \<and> compare x (items ! k) conds < 0) \<and>
         (conds = [] \<longrightarrow> k = length les)"
    by blast
next
  assume a: "mapElements f les = Inr items \<and> mapElements f news = Inr xs \<and> childNodes c = les \<and>
    distinct (les @ news)"
  have "fst (insertElement c les news [] f) = Inr () \<and>
      childNodes (fst (snd (insertElement c les news [] f))) = les @ news \<and>
      snd (snd (insertElement c les news [] f)) = les @ news"
    using a
  proof (induction news arbitrary: c les items xs)
    case Nil
    then show ?case by (simp add: insertElement_none)
  next
    case (Cons h hs)
    from Cons.prems obtain y ys where y: "f h = Inr y" and ys: "mapElements f hs = Inr ys"
      by (auto split: sum.splits)
    have d: "distinct les" "h \<notin> set les" using Cons.prems by auto
    define c' where "c' = \<lparr>childNodes = les @ [h],
              insertBeforeCalls = insertBeforeCalls c @ [(h, elementAt les (length les))]\<rparr>"
    have len: "length les = length items" using Cons.prems by (auto dest: mapElements_length)
    have first: "insertElement c les (h # hs) [] f = insertElement c' (les @ [h]) hs [] f"
      using insertElement_first [of f les items h y c hs "[]"] Cons.prems y d
      by (simp add: insertionIndex_no_conditions splice_def len c'_def)
    have m': "mapElements f (les @ [h]) = Inr (items @ [y])"
      using mapElements_splice [of f les items h y "length les"] Cons.prems y
      by (simp add: splice_def len)
    have "mapElements f (les @ [h]) = Inr (items @ [y]) \<and> mapElements f hs = Inr ys \<and>
      childNodes c' = les @ [h] \<and> distinct ((les @ [h]) @ hs)"
      using m' ys Cons.prems by (simp add: c'_def)
    from Cons.IH [OF this] show ?case unfolding first by simp
  qed
  then show "fst (insertElement c les news [] f) = Inr ()"
    and "childNodes (fst (snd (insertElement c les news [] f))) = les @ news"
    and "snd (snd (insertElement c les news [] f)) = les @ news"
    by simp_all
qed


theorem insertElement_first_smaller_witness:
  "(\<exists>k \<le> length [3, 6 :: nat].
      insertElement \<lparr>childNodes = [3, 6], insertBeforeCalls = []\<rparr> [3, 6] [5]
          (parseCondition ''id'') testItem =
        (Inr (),
         \<lparr>childNodes = take k [3, 6] @ 5 # drop k [3, 6],
          insertBeforeCalls = [(5, elementAt [3, 6] k)]\<rparr>,
         take k [3, 6] @ 5 # drop k [3, 6]) \<and>
      (k < length [3, 6 :: nat] \<longrightarrow>
         compare [(''id'', Num (Finite 5)), (''type'', Str ''foo''), (''checked'', Bool False)]
           ([[(''id'', Num (Finite 3)), (''type'', Str ''bar''), (''checked'', Bool True)],
             [(''id'', Num (Finite 6)), (''type'', Str ''bar''), (''checked'', Bool True)]] ! k)
           (parseCondition ''id'') < 0)) \<and>
   snd (snd (insertElement \<lparr>childNodes = [3, 6], insertBeforeCalls = []\<rparr> [3, 6] [5, 1]
               [] testItem)) = [3, 6] @ [5, 1]"
proof -
  have h: "mapElements testItem [3, 6] =
             Inr [[(''id'', Num (Finite 3)), (''type'', Str ''bar''), (''checked'', Bool True)],
                  [(''id'', Num (Finite 6)), (''type'', Str ''bar''), (''checked'', Bool True)]]"
    "testItem 5 = Inr [(''id'', Num (Finite 5)), (''type'', Str ''foo''), (''checked'', Bool False)]"
    "mapElements testItem [5, 1] =
       Inr [[(''id'', Num (Finite 5)), (''type'', Str ''foo''), (''checked'', Bool False)],
            [(''id'', Num (Finite 1)), (''type'', Str ''foo''), (''checked'', Bool False)]]"
    by code_simp+
  have d: "distinct [3, 6 :: nat]" "(5::nat) \<notin> set [3, 6]" "distinct ([3, 6] @ [5, 1 :: nat])"
    by simp_all
  have c: "childNodes \<lparr>childNodes = [3, 6 :: nat], insertBeforeCalls = []\<rparr> = [3, 6]"
    "insertBeforeCalls \<lparr>childNodes = [3, 6 :: nat], insertBeforeCalls = []\<rparr> = []"
    by simp_all
  from insertElement_first_smaller
         [of testItem "[3, 6]"
             "[[(''id'', Num (Finite 3)), (''type'', Str ''bar''), (''checked'', Bool True)],
               [(''id'', Num (Finite 6)), (''type'', Str ''bar''), (''checked'', Bool True)]]"
             5 "[(''id'', Num (Finite 5)), (''type'', Str ''foo''), (''checked'', Bool False)]"
             "\<lparr>childNodes = [3, 6], insertBeforeCalls = []\<rparr>" "[]" "parseCondition ''id''"
             "[5, 1]"
             "[[(''id'', Num (Finite 5)), (''type'', Str ''foo''), (''checked'', Bool False)],
               [(''id'', Num (Finite 1)), (''type'', Str ''foo''), (''checked'', Bool False)]]"]
       h d
  show ?thesis unfolding c by (simp only: simp_thms append_Nil) blast
qed

text \<open>
  C2: after any sequence of calls of \<open>insertElement\<close> with the same conditions and
  the same mapping function, on any container and from the empty array, the array
  mapped through the mapping function is non-decreasing.
\<close>

theorem insertCalls_sorted:
  "mirrorNonDecreasing conds f (snd (insertCalls c [] calls conds f))"
proof -
  have "mirrorNonDecreasing conds f []" by (simp add: mirrorNonDecreasing_def)
  then show ?thesis by (rule insertCalls_nonDecreasing)
qed

theorem insertCalls_sorted_witness:
  "mirrorNonDecreasing (parseCondition ''id'') testItem
     (snd (insertCalls emptyContainer [] [[5], [6], [3], [1, 2, 9]] (parseCondition ''id'')
             testItem)) \<and>
   snd (insertCalls emptyContainer [] [[5], [6], [3], [1, 2, 9]] (parseCondition ''id'')
          testItem) = [1, 2, 3, 5, 6, 9]"
proof
  show "mirrorNonDecreasing (parseCondition ''id'') testItem
     (snd (insertCalls emptyContainer [] [[5], [6], [3], [1, 2, 9]] (parseCondition ''id'')
             testItem))"
    by (rule insertCalls_sorted)
  show "snd (insertCalls emptyContainer [] [[5], [6], [3], [1, 2, 9]] (parseCondition ''id'')
          testItem) = [1, 2, 3, 5, 6, 9]"
    by code_simp
qed

lemma insertEach_append:
  assumes "mapElements f les = Inr items"
    and "insertEach conds f as items c les = (Inr (), c', les')"
  shows "\<exists>items'. mapElements f les' = Inr items' \<and>
           insertEach conds f (as @ bs) items c les = insertEach conds f bs items' c' les'"
  using assms
proof (induction as arbitrary: items c les)
  case Nil
  then show ?case by auto
next
  case (Cons h hs)
  from Cons.prems(2) obtain x where x: "f h = Inr x"
    by (cases "f h") auto
  define k where "k = insertionIndex items x conds"
  have len: "length les = length items" using Cons.prems(1) by (auto dest: mapElements_length)
  have step: "insertEach conds f (h # zs) items c les =
     (case insertBefore c h (elementAt les k) of
        Inl e \<Rightarrow> (Inl e, c, les)
      | Inr c1 \<Rightarrow> insertEach conds f zs (splice items k x) c1 (splice les k h))" for zs
    unfolding k_def using len x by (rule insertEach_step)
  from Cons.prems(2) obtain c1 where c1: "insertBefore c h (elementAt les k) = Inr c1"
    unfolding step by (cases "insertBefore c h (elementAt les k)") auto
  have m: "mapElements f (splice les k h) = Inr (splice items k x)"
    using Cons.prems(1) x by (rule mapElements_splice)
  from Cons.prems(2) have r: "insertEach conds f hs (splice items k x) c1 (splice les k h) = (Inr (), c', les')"
    unfolding step c1 by simp
  from Cons.IH [OF m r] show ?case
    unfolding append_Cons step c1 by simp
qed

text \<open>
  C9: when the mapping function throws on the k-th new element, after the first k - 1
  new elements have been inserted, the call ends with that exception, and the container
  and the array are those the insertion of the first k - 1 new elements leaves.
\<close>

theorem insertElement_throws_keeps_earlier:
  assumes "mapElements f les = Inr items"
    and "1 \<le> k" "k \<le> length adds"
    and "f (adds ! (k - 1)) = Inl e"
    and "fst (insertElement c les (take (k - 1) adds) conds f) = Inr ()"
  shows "insertElement c les adds conds f =
           (Inl e, snd (insertElement c les (take (k - 1) adds) conds f))"
proof -
  obtain c' les' where r: "insertEach conds f (take (k - 1) adds) items c les = (Inr (), c', les')"
    using assms(1,5) by (cases "insertEach conds f (take (k - 1) adds) items c les")
      (auto simp: insertElement_def)
  have adds: "adds = take (k - 1) adds @ adds ! (k - 1) # drop k adds"
    using assms(2,3) id_take_nth_drop [of "k - 1" adds] by simp
  from insertEach_append [OF assms(1) r, of "adds ! (k - 1) # drop k adds"]
  obtain items' where
    "insertEach conds f (take (k - 1) adds @ adds ! (k - 1) # drop k adds) items c les =
       insertEach conds f (adds ! (k - 1) # drop k adds) items' c' les'"
    by blast
  with adds have "insertEach conds f adds items c les =
       insertEach conds f (adds ! (k - 1) # drop k adds) items' c' les'" by simp
  also have "\<dots> = (Inl e, c', les')" using assms(4) by simp
  finally show ?thesis using assms(1) r by (simp add: insertElement_def)
qed

theorem insertElement_throws_keeps_earlier_witness:
  "insertElement emptyContainer [] [5, 2, 7, 6] (parseCondition ''id'') testItem =
     (Inl (CallerException ''not an item element''),
      snd (insertElement emptyContainer [] (take (3 - 1) [5, 2, 7, 6]) (parseCondition ''id'')
             testItem)) \<and>
   snd (insertElement emptyContainer [] (take (3 - 1) [5, 2, 7, 6]) (parseCondition ''id'')
          testItem) =
     (\<lparr>childNodes = [2, 5], insertBeforeCalls = [(5, None), (2, Some 5)]\<rparr>, [2, 5])"
proof
  have h: "mapElements testItem [] = Inr []" "(1::nat) \<le> 3" "3 \<le> length [5, 2, 7, 6 :: nat]"
    "testItem ([5, 2, 7, 6] ! (3 - 1)) = Inl (CallerException ''not an item element'')"
    "fst (insertElement emptyContainer [] (take (3 - 1) [5, 2, 7, 6]) (parseCondition ''id'')
            testItem) = Inr ()"
    by code_simp+
  show "insertElement emptyContainer [] [5, 2, 7, 6] (parseCondition ''id'') testItem =
     (Inl (CallerException ''not an item element''),
      snd (insertElement emptyContainer [] (take (3 - 1) [5, 2, 7, 6]) (parseCondition ''id'')
             testItem))"
    using h by (rule insertElement_throws_keeps_earlier)
  show "snd (insertElement emptyContainer [] (take (3 - 1) [5, 2, 7, 6]) (parseCondition ''id'')
          testItem) =
     (\<lparr>childNodes = [2, 5], insertBeforeCalls = [(5, None), (2, Some 5)]\<rparr>, [2, 5])"
    by code_simp
qed

text \<open>
  C10, as stated, fails: the array holds the elements with the fields 1 and \<open>NaN\<close>,
  which is non-decreasing; the new element with the field 0 compares equal to the one
  with \<open>NaN\<close> and is placed first, before it.
\<close>

theorem insertElement_before_equal_NaN:
  "mirrorNonDecreasing (parseCondition ''v'') nanItem [0, 1] \<and>
   insertElement \<lparr>childNodes = [0, 1], insertBeforeCalls = []\<rparr> [0, 1] [2]
       (parseCondition ''v'') nanItem =
     (Inr (), \<lparr>childNodes = [2, 0, 1], insertBeforeCalls = [(2, Some 0)]\<rparr>, [2, 0, 1]) \<and>
   nanItem 2 = Inr [(''v'', Num (Finite 0))] \<and>
   nanItem 1 = Inr [(''v'', Num NaN)] \<and>
   compare [(''v'', Num (Finite 0))] [(''v'', Num NaN)] (parseCondition ''v'') = 0"
  by code_simp

text \<open>
  C10, amended: when the array is non-decreasing and the comparison is transitive on
  its item objects and the new one (as it is when the compared fields hold comparable
  values other than \<open>NaN\<close>, lemma \<open>transitiveOn_fieldsComparable\<close>), the new
  element is placed after every element whose item object compares equal to the new
  one.
\<close>

theorem insertElement_after_equal:
  assumes "mapElements f les = Inr items" and "nonDecreasing conds items"
    and "f h = Inr x" and "transitiveOn conds (x # items)"
    and "childNodes c = les" "distinct les" "h \<notin> set les"
  shows "\<exists>k \<le> length les.
           insertElement c les [h] conds f =
             (Inr (),
              \<lparr>childNodes = take k les @ h # drop k les,
               insertBeforeCalls = insertBeforeCalls c @ [(h, elementAt les k)]\<rparr>,
              take k les @ h # drop k les) \<and>
           (\<forall>j < length les. compare x (items ! j) conds = 0 \<longrightarrow> j < k)"
proof -
  define k where "k = insertionIndex items x conds"
  define P where "P = (\<lambda>a b. compare a b conds \<le> 0)"
  have len: "length les = length items" using assms(1) by (auto dest: mapElements_length)
  have k: "k \<le> length les" unfolding k_def len by (rule insertionIndex_le)
  have m': "mapElements f (splice les k h) = Inr (splice items k x)"
    using assms(1,3) by (rule mapElements_splice)
  have placed: "insertElement c les [h] conds f =
             (Inr (),
              \<lparr>childNodes = take k les @ h # drop k les,
               insertBeforeCalls = insertBeforeCalls c @ [(h, elementAt les k)]\<rparr>,
              take k les @ h # drop k les)"
    using insertElement_first [OF assms(1,3,5,6,7), of "[]" conds] m'
    by (simp add: k_def insertElement_none splice_def)
  have trans: "\<And>a b c. a \<in> set (x # items) \<Longrightarrow> b \<in> set (x # items) \<Longrightarrow> c \<in> set (x # items) \<Longrightarrow>
      P a b \<Longrightarrow> P b c \<Longrightarrow> P a c"
    using assms(4) unfolding transitiveOn_def P_def by blast
  have "successively P items"
    using assms(2) by (simp add: nonDecreasing_successively P_def)
  moreover have "successively P items \<longleftrightarrow> sorted_wrt P items"
    by (rule successively_iff_sorted_wrt_strong) (rule trans; simp)
  ultimately have sorted: "sorted_wrt P items" by simp
  have after: "j < k" if j: "j < length les" and eq: "compare x (items ! j) conds = 0" for j
  proof (rule ccontr)
    assume "\<not> j < k"
    then have kj: "k \<le> j" by simp
    with j have kl: "k < length items" by (simp add: len)
    then have lt: "compare x (items ! k) conds < 0"
      using insertionIndex_at [of items x conds] by (simp add: k_def)
    with eq have "k \<noteq> j" by auto
    with kj have "k < j" by simp
    with sorted j have "P (items ! k) (items ! j)"
      by (simp add: sorted_wrt_nth_less len)
    moreover have "P (items ! j) x"
      using eq compare_antisym [of "items ! j" x conds] by (simp add: P_def)
    moreover have "items ! k \<in> set (x # items)" "items ! j \<in> set (x # items)" "x \<in> set (x # items)"
      using kl j by (simp_all add: len)
    ultimately have "P (items ! k) x" using trans by blast
    then have "compare x (items ! k) conds \<ge> 0"
      using compare_antisym [of x "items ! k" conds] by (simp add: P_def)
    with lt show False by simp
  qed
  from k placed after show ?thesis by blast
qed

theorem insertElement_after_equal_witness:
  "\<exists>k \<le> length [1, 5 :: nat].
     insertElement \<lparr>childNodes = [1, 5], insertBeforeCalls = []\<rparr> [1, 5] [9]
         (parseCondition ''checked'') testItem =
       (Inr (),
        \<lparr>childNodes = take k [1, 5] @ 9 # drop k [1, 5],
         insertBeforeCalls = [] @ [(9, elementAt [1, 5] k)]\<rparr>,
        take k [1, 5] @ 9 # drop k [1, 5]) \<and>
     (\<forall>j < length [1, 5 :: nat].
        compare [(''id'', Num (Finite 9)), (''type'', Str ''bar''), (''checked'', Bool False)]
          ([[(''id'', Num (Finite 1)), (''type'', Str ''foo''), (''checked'', Bool False)],
            [(''id'', Num (Finite 5)), (''type'', Str ''foo''), (''checked'', Bool False)]] ! j)
          (parseCondition ''checked'') = 0 \<longrightarrow> j < k)"
proof -
  have h: "mapElements testItem [1, 5] =
      Inr [[(''id'', Num (Finite 1)), (''type'', Str ''foo''), (''checked'', Bool False)],
           [(''id'', Num (Finite 5)), (''type'', Str ''foo''), (''checked'', Bool False)]]"
    "nonDecreasing (parseCondition ''checked'')
       [[(''id'', Num (Finite 1)), (''type'', Str ''foo''), (''checked'', Bool False)],
        [(''id'', Num (Finite 5)), (''type'', Str ''foo''), (''checked'', Bool False)]]"
    "testItem 9 = Inr [(''id'', Num (Finite 9)), (''type'', Str ''bar''), (''checked'', Bool False)]"
    "transitiveOn (parseCondition ''checked'')
       ([(''id'', Num (Finite 9)), (''type'', Str ''bar''), (''checked'', Bool False)] #
        [[(''id'', Num (Finite 1)), (''type'', Str ''foo''), (''checked'', Bool False)],
         [(''id'', Num (Finite 5)), (''type'', Str ''foo''), (''checked'', Bool False)]])"
    by code_simp+
  have c: "childNodes \<lparr>childNodes = [1, 5 :: nat], insertBeforeCalls = []\<rparr> = [1, 5]"
    "distinct [1, 5 :: nat]" "(9::nat) \<notin> set [1, 5]"
    by simp_all
  from insertElement_after_equal [OF h c]
  show ?thesis by simp
qed

section \<open>sortElements\<close>

lemma tagItems_mapped:
  "mapElements f les = Inr items \<Longrightarrow>
   tagItems f les idx = Inr (map tagged (zip [idx ..< idx + length items] items))"
proof (induction les arbitrary: items idx)
  case Nil
  then show ?case by auto
next
  case (Cons h hs)
  from Cons.prems obtain x xs where x: "f h = Inr x" and xs: "mapElements f hs = Inr xs"
    and items: "items = x # xs"
    by (auto split: sum.splits)
  have "[idx ..< idx + Suc (length xs)] = idx # [Suc idx ..< Suc idx + length xs]"
    by (subst upt_rec) simp
  then have "[idx ..< idx + length items] = idx # [idx + 1 ..< (idx + 1) + length xs]"
    by (simp add: items)
  with Cons.IH [OF xs, of "idx + 1"] x show ?case
    by (simp add: items tagged_def)
qed

lemma tagItems_throws: "mapElements f les = Inl e \<Longrightarrow> tagItems f les idx = Inl e"
proof (induction les arbitrary: idx)
  case Nil
  then show ?case by simp
next
  case (Cons h hs)
  then show ?case by (cases "f h"; cases "mapElements f hs") auto
qed

lemma getProperty_tagged: "getProperty (tagged p) ''__index'' = Num (Finite (of_nat (fst p)))"
  by (simp add: getProperty_def tagged_def setProperty_def)

lemma elementAtValue_index: "elementAtValue les (Num (Finite (of_nat i))) = elementAt les i"
  by (simp add: elementAtValue_def)

lemma set_insertSorted: "set (insertSorted cmp x ys) = insert x (set ys)"
  by (induction ys) auto

lemma length_insertSorted: "length (insertSorted cmp x ys) = Suc (length ys)"
  by (induction ys) auto

lemma distinct_map_insertSorted:
  "distinct (map g (insertSorted cmp x ys)) \<longleftrightarrow> g x \<notin> g ` set ys \<and> distinct (map g ys)"
  by (induction ys) (auto simp: set_insertSorted)

lemma set_arraySort: "set (arraySort cmp xs) = set xs"
  unfolding arraySort_def by (induction xs) (simp_all add: set_insertSorted)

lemma length_arraySort: "length (arraySort cmp xs) = length xs"
  unfolding arraySort_def by (induction xs) (simp_all add: length_insertSorted)

lemma distinct_map_arraySort: "distinct (map g (arraySort cmp xs)) \<longleftrightarrow> distinct (map g xs)"
  unfolding arraySort_def
  by (induction xs) (simp_all add: distinct_map_insertSorted set_arraySort [unfolded arraySort_def])

lemma insertSorted_map:
  assumes "\<And>a b. cmp' (g a) (g b) = cmp a b"
  shows "insertSorted cmp' (g x) (map g ys) = map g (insertSorted cmp x ys)"
  by (induction ys) (simp_all add: assms)

lemma arraySort_map:
  assumes "\<And>a b. cmp' (g a) (g b) = cmp a b"
  shows "arraySort cmp' (map g xs) = map g (arraySort cmp xs)"
  unfolding arraySort_def
  by (induction xs) (simp_all add: insertSorted_map [of cmp' g cmp, OF assms])

lemma insertBefore_end:
  "insertBefore c t None =
     Inr \<lparr>childNodes = removeAll t (childNodes c) @ [t],
          insertBeforeCalls = insertBeforeCalls c @ [(t, None)]\<rparr>"
  by (simp add: insertBefore_def)

lemma insertBefore_block:
  assumes "childNodes c = rest @ b # B" "b \<notin> set rest" "t \<noteq> b" "t \<notin> set B"
  shows "insertBefore c t (Some b) =
     Inr \<lparr>childNodes = removeAll t rest @ t # b # B,
          insertBeforeCalls = insertBeforeCalls c @ [(t, Some b)]\<rparr>"
proof -
  have rm: "removeAll t (rest @ b # B) = removeAll t rest @ b # B"
    using assms(3,4) by simp
  have "takeWhile (\<lambda>x. x \<noteq> b) (removeAll t rest @ b # B) =
          removeAll t rest @ takeWhile (\<lambda>x. x \<noteq> b) (b # B)"
    by (rule takeWhile_append2) (use assms(2) in auto)
  then have tw: "takeWhile (\<lambda>x. x \<noteq> b) (removeAll t rest @ b # B) = removeAll t rest"
    by simp
  have "dropWhile (\<lambda>x. x \<noteq> b) (removeAll t rest @ b # B) = dropWhile (\<lambda>x. x \<noteq> b) (b # B)"
    by (rule dropWhile_append2) (use assms(2) in auto)
  then have dw: "dropWhile (\<lambda>x. x \<noteq> b) (removeAll t rest @ b # B) = b # B"
    by simp
  show ?thesis
    using assms(3) by (simp add: insertBefore_def assms(1) Let_def rm tw dw del: removeAll_append removeAll.simps)
qed

lemma moveRounds_block:
  assumes "distinct T"
    and "\<forall>j. 1 \<le> j \<and> j \<le> r \<longrightarrow> elementAtValue les (targets ! j) = Some (T ! j)"
    and "r \<le> length T - 1"
    and "childNodes c = rest @ drop (Suc r) T"
    and "set rest \<inter> set (drop (Suc r) T) = {}"
    and "lastElement = elementAt T (Suc r)"
  shows "moveRounds targets les r lastElement c =
           (Inr (),
            \<lparr>childNodes = filter (\<lambda>h. h \<notin> set (take r (tl T))) rest @ tl T,
             insertBeforeCalls = insertBeforeCalls c @
               map (\<lambda>j. (T ! j, elementAt T (Suc j))) (rev [1 ..< Suc r])\<rparr>)"
  using assms(2-)
proof (induction r arbitrary: c rest lastElement)
  case 0
  then have "childNodes c = rest @ tl T" by (simp add: drop_Suc)
  then show ?case by simp
next
  case (Suc r)
  define t where "t = T ! Suc r"
  define B where "B = drop (Suc (Suc r)) T"
  from Suc.prems(2) have rl: "Suc r < length T" by (cases T) auto
  have tgt: "elementAtValue les (targets ! Suc r) = Some t"
    using Suc.prems(1) by (simp add: t_def)
  have T: "T = take (Suc r) T @ t # B"
    unfolding t_def B_def using rl by (simp add: id_take_nth_drop [symmetric])
  have tB: "t \<notin> set B"
    using assms(1) by (subst (asm) T) auto
  have dr: "drop (Suc r) T = t # B"
    unfolding t_def B_def using rl by (simp add: Cons_nth_drop_Suc)
  have ch: "childNodes c = rest @ B" using Suc.prems(3) by (simp add: B_def)
  have disj: "set rest \<inter> set B = {}" using Suc.prems(4) by (simp add: B_def)
  have ib: "insertBefore c t lastElement =
      Inr \<lparr>childNodes = removeAll t rest @ t # B,
           insertBeforeCalls = insertBeforeCalls c @ [(t, lastElement)]\<rparr>"
  proof (cases "Suc (Suc r) < length T")
    case False
    then have "B = []" "lastElement = None"
      using Suc.prems(5) by (simp_all add: B_def elementAt_def)
    with ch show ?thesis by (simp add: insertBefore_end)
  next
    case True
    define b where "b = T ! Suc (Suc r)"
    define B' where "B' = drop (Suc (Suc (Suc r))) T"
    have B: "B = b # B'" unfolding B_def b_def B'_def using True by (simp add: Cons_nth_drop_Suc)
    have l: "lastElement = Some b" using Suc.prems(5) True by (simp add: elementAt_def b_def)
    have "b \<notin> set rest" using disj B by auto
    moreover have "t \<noteq> b" "t \<notin> set B'" using tB B by auto
    moreover have "childNodes c = rest @ b # B'" using ch B by simp
    ultimately show ?thesis unfolding l B by (simp add: insertBefore_block)
  qed
  define c1 where "c1 = \<lparr>childNodes = removeAll t rest @ t # B,
           insertBeforeCalls = insertBeforeCalls c @ [(t, lastElement)]\<rparr>"
  have step: "moveRounds targets les (Suc r) lastElement c = moveRounds targets les r (Some t) c1"
    by (simp add: tgt ib c1_def Let_def)
  have 1: "\<forall>j. 1 \<le> j \<and> j \<le> r \<longrightarrow> elementAtValue les (targets ! j) = Some (T ! j)"
    using Suc.prems(1) by simp
  have 2: "r \<le> length T - 1" using rl by simp
  have 3: "childNodes c1 = removeAll t rest @ drop (Suc r) T" by (simp add: c1_def dr)
  have 4: "set (removeAll t rest) \<inter> set (drop (Suc r) T) = {}" using disj by (auto simp: dr)
  have 5: "Some t = elementAt T (Suc r)" using rl by (simp add: elementAt_def t_def)
  have tk: "take (Suc r) (tl T) = take r (tl T) @ [t]"
    using rl by (simp add: take_Suc_conv_app_nth t_def nth_tl)
  have f: "filter (\<lambda>h. h \<notin> set (take r (tl T))) (removeAll t rest) =
           filter (\<lambda>h. h \<notin> set (take (Suc r) (tl T))) rest"
    unfolding tk by (induction rest) auto
  have calls: "insertBeforeCalls c1 @ map (\<lambda>j. (T ! j, elementAt T (Suc j))) (rev [1 ..< Suc r]) =
      insertBeforeCalls c @ map (\<lambda>j. (T ! j, elementAt T (Suc j))) (rev [1 ..< Suc (Suc r)])"
    using Suc.prems(5) by (simp add: c1_def t_def)
  from Suc.IH [OF 1 2 3 4 5] show ?case unfolding step f calls .
qed

lemma targetOrder_distinct:
  assumes "distinct les" "length items = length les"
  shows "distinct (targetOrder les items conds)"
proof -
  define ps where "ps = arraySort (\<lambda>l r. compare (tagged l) (tagged r) conds)
          (zip [0 ..< length les] items)"
  have d: "distinct (map fst ps)"
    unfolding ps_def distinct_map_arraySort using assms(2) by simp
  have s: "set (map fst ps) = {0 ..< length les}"
    unfolding ps_def set_map set_arraySort using assms(2) by (simp flip: set_map)
  have "inj_on ((!) les) (set (map fst ps))"
    unfolding s using assms(1) by (intro inj_on_nth) auto
  moreover have "distinct (map ((!) les) (map fst ps)) \<longleftrightarrow>
      distinct (map fst ps) \<and> inj_on ((!) les) (set (map fst ps))"
    by (rule distinct_map)
  ultimately have "distinct (map ((!) les) (map fst ps))" using d by blast
  then show ?thesis by (simp add: targetOrder_def ps_def comp_def)
qed

lemma targetOrder_set:
  assumes "length items = length les"
  shows "set (targetOrder les items conds) = set les"
proof -
  define ps where "ps = arraySort (\<lambda>l r. compare (tagged l) (tagged r) conds)
          (zip [0 ..< length les] items)"
  have s: "set (map fst ps) = {0 ..< length les}"
    unfolding ps_def set_map set_arraySort using assms by (simp flip: set_map)
  have "set (targetOrder les items conds) = (!) les ` set (map fst ps)"
    by (simp add: targetOrder_def ps_def image_image)
  also have "\<dots> = set les" unfolding s by (auto simp: set_conv_nth)
  finally show ?thesis .
qed

lemma targetOrder_length:
  "length items = length les \<Longrightarrow> length (targetOrder les items conds) = length les"
  by (simp add: targetOrder_def length_arraySort)

lemma sortElements_moves:
  assumes m: "mapElements f les = Inr items" and d: "distinct les"
  shows "sortElements c les conds f =
     (Inr (),
      \<lparr>childNodes =
         filter (\<lambda>h. h \<notin> set (tl (targetOrder les items conds))) (childNodes c) @
         tl (targetOrder les items conds),
       insertBeforeCalls = insertBeforeCalls c @
         map (\<lambda>j. (targetOrder les items conds ! j,
                    elementAt (targetOrder les items conds) (Suc j)))
             (rev [1 ..< length les])\<rparr>,
      les)"
proof -
  define n where "n = length les"
  define ps where "ps = arraySort (\<lambda>l r. compare (tagged l) (tagged r) conds)
          (zip [0 ..< n] items)"
  define T where "T = targetOrder les items conds"
  define targets where "targets = map (\<lambda>item. getProperty item ''__index'') (map tagged ps)"
  have len: "length items = n" using m by (simp add: mapElements_length n_def)
  have T: "T = map (\<lambda>p. les ! fst p) ps" by (simp add: T_def targetOrder_def ps_def n_def)
  have lps: "length ps = n" by (simp add: ps_def length_arraySort len)
  have lT: "length T = n" by (simp add: T lps)
  have tag: "tagItems f les 0 = Inr (map tagged (zip [0 ..< n] items))"
    using tagItems_mapped [OF m, of 0] by (simp add: len)
  have srt: "arraySort (\<lambda>l r. compare l r conds) (map tagged (zip [0 ..< n] items)) = map tagged ps"
    unfolding ps_def by (rule arraySort_map) simp
  have fst_lt: "fst p < n" if "p \<in> set ps" for p
  proof -
    from that have "p \<in> set (zip [0 ..< n] items)" by (simp add: ps_def set_arraySort)
    then have "fst p \<in> set [0 ..< n]" by (metis in_set_zipE prod.collapse)
    then show ?thesis by simp
  qed
  have tg: "\<forall>j. 1 \<le> j \<and> j \<le> n - 1 \<longrightarrow> elementAtValue les (targets ! j) = Some (T ! j)"
  proof (intro allI impI)
    fix j assume "1 \<le> j \<and> j \<le> n - 1"
    then have j: "j < n" by arith
    then have "ps ! j \<in> set ps" by (simp add: lps)
    then have "fst (ps ! j) < length les" using fst_lt by (simp add: n_def)
    then show "elementAtValue les (targets ! j) = Some (T ! j)"
      using j by (simp add: targets_def T lps getProperty_tagged elementAtValue_index elementAt_def)
  qed
  have dT: "distinct T" unfolding T_def using d len by (simp add: targetOrder_distinct n_def)
  have mv: "moveRounds targets les (n - 1) None c =
           (Inr (),
            \<lparr>childNodes = filter (\<lambda>h. h \<notin> set (take (n - 1) (tl T))) (childNodes c) @ tl T,
             insertBeforeCalls = insertBeforeCalls c @
               map (\<lambda>j. (T ! j, elementAt T (Suc j))) (rev [1 ..< Suc (n - 1)])\<rparr>)"
    using dT tg
  proof (rule moveRounds_block)
    show "n - 1 \<le> length T - 1" by (simp add: lT)
    show "childNodes c = childNodes c @ drop (Suc (n - 1)) T" by (simp add: lT)
    show "set (childNodes c) \<inter> set (drop (Suc (n - 1)) T) = {}" by (simp add: lT)
    show "None = elementAt T (Suc (n - 1))" by (simp add: elementAt_def lT)
  qed
  have tk: "take (n - 1) (tl T) = tl T" by (simp add: lT)
  have up: "[1 ..< Suc (n - 1)] = [1 ..< n]" by (cases n) simp_all
  have se: "sortElements c les conds f =
      (case moveRounds targets les (length targets - 1) None c of
         (outcome, container') \<Rightarrow> (outcome, container', les))"
    by (simp only: sortElements_def tag sum.case Let_def srt targets_def [symmetric])
  have l: "length targets - 1 = n - 1" by (simp add: targets_def lps)
  show ?thesis
    unfolding se l mv tk up unfolding T_def n_def by simp
qed

lemma distinct_singleton_set:
  assumes "distinct ys" "set ys = {a}"
  shows "ys = [a]"
proof (cases ys)
  case Nil
  with assms(2) show ?thesis by simp
next
  case (Cons y zs)
  with assms(2) have y: "y = a" and sub: "set zs \<subseteq> {a}" by auto
  from Cons assms(1) y have "a \<notin> set zs" by simp
  with sub have "zs = []" by (cases zs) auto
  with Cons y show ?thesis by simp
qed

lemma filter_all_but_first:
  assumes "distinct xs" "distinct T" "set xs = set T" "T \<noteq> []"
  shows "filter (\<lambda>h. h \<notin> set (tl T)) xs = [hd T]"
proof -
  from assms(2,4) have hd: "hd T \<notin> set (tl T)" by (cases T) auto
  from assms(4) have st: "set T = insert (hd T) (set (tl T))" by (cases T) auto
  have "distinct (filter (\<lambda>h. h \<notin> set (tl T)) xs)" using assms(1) by simp
  moreover have "set (filter (\<lambda>h. h \<notin> set (tl T)) xs) = {hd T}"
    using assms(3) hd st by auto
  ultimately show ?thesis by (rule distinct_singleton_set)
qed

lemma sortElements_children:
  assumes m: "mapElements f les = Inr items" and d: "distinct les"
    and c: "distinct (childNodes c)" "set (childNodes c) = set les"
  shows "childNodes (fst (snd (sortElements c les conds f))) = targetOrder les items conds"
proof (cases "les = []")
  case True
  with c have "childNodes c = []" by simp
  with True m sortElements_moves [OF m d, of c conds] show ?thesis
    by (simp add: targetOrder_def arraySort_def)
next
  case False
  define T where "T = targetOrder les items conds"
  have len: "length items = length les" using m by (simp add: mapElements_length)
  have "T \<noteq> []" using False targetOrder_length [OF len, of conds] by (auto simp: T_def)
  moreover have "distinct T" unfolding T_def using d len by (rule targetOrder_distinct)
  moreover have "set (childNodes c) = set T" using c(2) targetOrder_set [OF len] by (simp add: T_def)
  ultimately have "filter (\<lambda>h. h \<notin> set (tl T)) (childNodes c) = [hd T]"
    using c(1) by (intro filter_all_but_first)
  with \<open>T \<noteq> []\<close> show ?thesis
    by (simp add: sortElements_moves [OF m d] T_def [symmetric])
qed

lemma map_nth_from_one: "map ((!) T) [1 ..< length T] = tl T"
proof (rule map_upt_eqI)
  show "length (tl T) = length T - 1" by simp
  show "\<And>i. i < length (tl T) \<Longrightarrow> tl T ! i = T ! (1 + i)" by (simp add: nth_tl)
qed

text \<open>
  C4: \<open>sortElements\<close> on an array of n distinct elements, on a container that holds
  these elements in any order, with a mapping function that throws for none of them,
  returns after n - 1 calls of \<open>insertBefore\<close> (none for the empty array). The nodes
  moved are, in this order, the last to the second element of the final order of the
  container, which is the target order; its first element is not among them.
\<close>

theorem sortElements_move_count:
  assumes "mapElements f les = Inr items" and "distinct les"
    and "distinct (childNodes c)" and "set (childNodes c) = set les"
  shows "fst (sortElements c les conds f) = Inr () \<and>
    (let c' = fst (snd (sortElements c les conds f));
         moves = drop (length (insertBeforeCalls c)) (insertBeforeCalls c')
     in take (length (insertBeforeCalls c)) (insertBeforeCalls c') = insertBeforeCalls c \<and>
        length moves = length les - 1 \<and>
        (les \<noteq> [] \<longrightarrow> Suc (length moves) = length les) \<and>
        childNodes c' = targetOrder les items conds \<and>
        map fst moves = rev (tl (childNodes c')) \<and>
        (les \<noteq> [] \<longrightarrow> hd (childNodes c') \<notin> set (map fst moves)))"
proof -
  define T where "T = targetOrder les items conds"
  define moves where "moves = map (\<lambda>j. (T ! j, elementAt T (Suc j))) (rev [1 ..< length les])"
  have len: "length items = length les" using assms(1) by (simp add: mapElements_length)
  have lT: "length T = length les" unfolding T_def using len by (rule targetOrder_length)
  have dT: "distinct T" unfolding T_def using assms(2) len by (rule targetOrder_distinct)
  note mv = sortElements_moves [OF assms(1,2), of c conds, folded T_def, folded moves_def]
  have ch: "childNodes (fst (snd (sortElements c les conds f))) = T"
    unfolding T_def using assms by (rule sortElements_children)
  have calls: "insertBeforeCalls (fst (snd (sortElements c les conds f))) =
      insertBeforeCalls c @ moves"
    by (simp add: mv)
  have lm: "length moves = length les - 1" by (simp add: moves_def)
  have "map fst moves = rev (map ((!) T) [1 ..< length T])"
    by (simp add: moves_def lT rev_map comp_def)
  then have nodes: "map fst moves = rev (tl T)" using map_nth_from_one [of T] by simp
  have first: "les \<noteq> [] \<longrightarrow> hd T \<notin> set (map fst moves)"
    unfolding nodes using dT lT by (cases T) auto
  have suc: "les \<noteq> [] \<longrightarrow> Suc (length moves) = length les"
    unfolding lm by (cases les) auto
  have out: "fst (sortElements c les conds f) = Inr ()" by (simp add: mv)
  have dr: "drop (length (insertBeforeCalls c))
              (insertBeforeCalls (fst (snd (sortElements c les conds f)))) = moves"
    and tk: "take (length (insertBeforeCalls c))
              (insertBeforeCalls (fst (snd (sortElements c les conds f)))) = insertBeforeCalls c"
    by (simp_all add: calls)
  show ?thesis
    unfolding Let_def dr tk ch T_def [symmetric]
    using out lm suc nodes first by blast
qed

theorem sortElements_move_count_witness:
  "fst (sortElements \<lparr>childNodes = [2, 6, 5], insertBeforeCalls = []\<rparr> [6, 5, 2]
          (parseCondition ''id'') testItem) = Inr () \<and>
   (let c' = fst (snd (sortElements \<lparr>childNodes = [2, 6, 5], insertBeforeCalls = []\<rparr>
                         [6, 5, 2] (parseCondition ''id'') testItem));
        moves = drop (length (insertBeforeCalls
                        \<lparr>childNodes = [2, 6, 5 :: nat], insertBeforeCalls = []\<rparr>))
                  (insertBeforeCalls c')
    in length moves = length [6, 5, 2 :: nat] - 1 \<and>
       map fst moves = rev (tl (childNodes c')) \<and>
       hd (childNodes c') \<notin> set (map fst moves)) \<and>
   sortElements \<lparr>childNodes = [2, 6, 5], insertBeforeCalls = []\<rparr> [6, 5, 2]
       (parseCondition ''id'') testItem =
     (Inr (), \<lparr>childNodes = [2, 5, 6], insertBeforeCalls = [(6, None), (5, Some 6)]\<rparr>,
      [6, 5, 2])"
proof (intro conjI)
  have h: "mapElements testItem [6, 5, 2] =
      Inr [[(''id'', Num (Finite 6)), (''type'', Str ''bar''), (''checked'', Bool True)],
           [(''id'', Num (Finite 5)), (''type'', Str ''foo''), (''checked'', Bool False)],
           [(''id'', Num (Finite 2)), (''type'', Str ''foo''), (''checked'', Bool True)]]"
    by code_simp
  have d: "distinct [6, 5, 2 :: nat]"
    "distinct (childNodes \<lparr>childNodes = [2, 6, 5 :: nat], insertBeforeCalls = []\<rparr>)"
    "set (childNodes \<lparr>childNodes = [2, 6, 5 :: nat], insertBeforeCalls = []\<rparr>) = set [6, 5, 2]"
    by auto
  note t = sortElements_move_count [OF h d, of "parseCondition ''id''"]
  from t show "fst (sortElements \<lparr>childNodes = [2, 6, 5], insertBeforeCalls = []\<rparr> [6, 5, 2]
          (parseCondition ''id'') testItem) = Inr ()"
    by (rule conjunct1)
  have ne: "[6, 5, 2 :: nat] \<noteq> []" by simp
  from t ne show "let c' = fst (snd (sortElements \<lparr>childNodes = [2, 6, 5], insertBeforeCalls = []\<rparr>
                         [6, 5, 2] (parseCondition ''id'') testItem));
        moves = drop (length (insertBeforeCalls
                        \<lparr>childNodes = [2, 6, 5 :: nat], insertBeforeCalls = []\<rparr>))
                  (insertBeforeCalls c')
    in length moves = length [6, 5, 2 :: nat] - 1 \<and>
       map fst moves = rev (tl (childNodes c')) \<and>
       hd (childNodes c') \<notin> set (map fst moves)"
    unfolding Let_def by blast
  show "sortElements \<lparr>childNodes = [2, 6, 5], insertBeforeCalls = []\<rparr> [6, 5, 2]
       (parseCondition ''id'') testItem =
     (Inr (), \<lparr>childNodes = [2, 5, 6], insertBeforeCalls = [(6, None), (5, Some 6)]\<rparr>,
      [6, 5, 2])"
    by code_simp
qed

text \<open>
  C1 fails on a condition that names the property \<open>__index\<close>, which \<open>sortElements\<close>
  writes on every item object before it sorts: for the elements 5 and 2 of the test and
  the expression \<open>__index DESC\<close> the container ends with the order 2, 5, while a stable
  sort of the two item objects, which are equal under this condition, keeps 5, 2.
\<close>

theorem sortElements_index_field:
  "mapElements testItem [5, 2] =
     Inr [[(''id'', Num (Finite 5)), (''type'', Str ''foo''), (''checked'', Bool False)],
          [(''id'', Num (Finite 2)), (''type'', Str ''foo''), (''checked'', Bool True)]] \<and>
   sortElements \<lparr>childNodes = [5, 2], insertBeforeCalls = []\<rparr> [5, 2]
       (parseCondition ''__index DESC'') testItem =
     (Inr (), \<lparr>childNodes = [2, 5], insertBeforeCalls = [(5, None)]\<rparr>, [5, 2]) \<and>
   referenceOrder [5, 2 :: nat]
       [[(''id'', Num (Finite 5)), (''type'', Str ''foo''), (''checked'', Bool False)],
        [(''id'', Num (Finite 2)), (''type'', Str ''foo''), (''checked'', Bool True)]]
       (parseCondition ''__index DESC'') = [5, 2]"
  by code_simp

text \<open>
  C5 fails: \<open>sortElements\<close> returns the array \<open>lastElements\<close> as it was passed. After
  the elements 1, 2 are sorted by \<open>id DESC\<close> the container holds 2, 1 and the array
  still 1, 2, which is not non-decreasing under \<open>id DESC\<close>; the insertion of the
  element 3 that follows puts it between 2 and 1.
\<close>

theorem sortElements_leaves_lastElements:
  "snd (snd (sortElements c les conds f)) = les \<and>
   sortElements \<lparr>childNodes = [1, 2], insertBeforeCalls = []\<rparr> [1, 2]
       (parseCondition ''id DESC'') testItem =
     (Inr (), \<lparr>childNodes = [2, 1], insertBeforeCalls = [(1, None)]\<rparr>, [1, 2]) \<and>
   \<not> mirrorNonDecreasing (parseCondition ''id DESC'') testItem [1, 2] \<and>
   insertElement \<lparr>childNodes = [2, 1], insertBeforeCalls = [(1, None)]\<rparr> [1, 2] [3]
       (parseCondition ''id DESC'') testItem =
     (Inr (), \<lparr>childNodes = [2, 3, 1], insertBeforeCalls = [(1, None), (3, Some 1)]\<rparr>,
      [3, 1, 2])"
proof (intro conjI)
  show "snd (snd (sortElements c les conds f)) = les"
    by (simp add: sortElements_def Let_def split: sum.split prod.split)
qed code_simp+

lemma split_not_empty: "split sep s \<noteq> []"
  by (subst split.simps) (simp split: list.split)

lemma getPropertyValueByNamePath_tagged:
  assumes "firstName path \<noteq> ''__index''"
  shows "getPropertyValueByNamePath (tagged p) path = getPropertyValueByNamePath (snd p) path"
proof -
  obtain name names where s: "split CHR ''.'' path = name # names"
    using split_not_empty [of "CHR ''.''" path] by (cases "split CHR ''.'' path") auto
  with assms have "name \<noteq> ''__index''" by (simp add: firstName_def)
  then show ?thesis
    unfolding getPropertyValueByNamePath_def s
    by (simp add: tagged_def setProperty_def del: split.simps)
qed

lemma compare_tagged:
  assumes "\<forall>c \<in> set conds. firstName (fieldName c) \<noteq> ''__index''"
  shows "compare (tagged p) (tagged q) conds = compare (snd p) (snd q) conds"
  using assms
  by (induction conds) (simp_all add: Let_def compareField_def getPropertyValueByNamePath_tagged)

lemma targetOrder_reference:
  assumes "\<forall>c \<in> set conds. firstName (fieldName c) \<noteq> ''__index''"
    and "length items = length les"
  shows "targetOrder les items conds = referenceOrder les items conds"
proof -
  define g where "g = (\<lambda>p :: nat \<times> itemObject. (les ! fst p, snd p))"
  define cmp where
    "cmp = (\<lambda>(l :: nat \<times> itemObject) (r :: nat \<times> itemObject). compare (snd l) (snd r) conds)"
  have z: "zip les items = map g (zip [0 ..< length les] items)"
    using assms(2) by (intro nth_equalityI) (simp_all add: g_def)
  have t: "(\<lambda>l r. compare (tagged l) (tagged r) conds) = cmp"
    using assms(1) by (simp add: cmp_def compare_tagged)
  have "arraySort (\<lambda>l r. compare (snd l) (snd r) conds) (map g (zip [0 ..< length les] items)) =
        map g (arraySort cmp (zip [0 ..< length les] items))"
    by (rule arraySort_map) (simp add: g_def cmp_def)
  then show ?thesis
    by (simp add: targetOrder_def referenceOrder_def z t g_def comp_def)
qed

text \<open>
  With conditions that do not name the property \<open>__index\<close>, the container ends in
  the order of the stable sort of the item objects.
\<close>

lemma sortElements_reference_order:
  assumes "mapElements f les = Inr items" and "distinct les"
    and "distinct (childNodes c)" and "set (childNodes c) = set les"
    and "\<forall>c \<in> set conds. firstName (fieldName c) \<noteq> ''__index''"
  shows "fst (sortElements c les conds f) = Inr ()"
    and "childNodes (fst (snd (sortElements c les conds f))) = referenceOrder les items conds"
proof -
  show "fst (sortElements c les conds f) = Inr ()"
    by (simp add: sortElements_moves [OF assms(1,2)])
  have "length items = length les" using assms(1) by (simp add: mapElements_length)
  with assms(5) have "targetOrder les items conds = referenceOrder les items conds"
    by (rule targetOrder_reference)
  with sortElements_children [OF assms(1-4), of conds]
  show "childNodes (fst (snd (sortElements c les conds f))) = referenceOrder les items conds"
    by simp
qed

text \<open>
  The sort of the model is a stable sort: neighbours of the result are in order for an
  antisymmetric comparison, and the elements of a class whose members compare equal
  keep their order.
\<close>

lemma insertSorted_sorted:
  assumes "\<And>a b. cmp a b = - cmp b a"
    and "successively (\<lambda>a b. cmp a b \<le> 0) ys"
  shows "successively (\<lambda>a b. cmp a b \<le> (0::int)) (insertSorted cmp x ys)"
  using assms(2)
proof (induction ys)
  case Nil
  then show ?case by simp
next
  case (Cons y ys)
  show ?case
  proof (cases "cmp x y > 0")
    case False
    with Cons.prems show ?thesis by (simp add: successively_Cons)
  next
    case True
    then have yx: "cmp y x \<le> 0" using assms(1) [of y x] by simp
    from Cons.prems have "successively (\<lambda>a b. cmp a b \<le> 0) ys"
      by (cases ys) simp_all
    then have IH: "successively (\<lambda>a b. cmp a b \<le> 0) (insertSorted cmp x ys)"
      by (rule Cons.IH)
    have "hd (insertSorted cmp x ys) = x \<or> (ys \<noteq> [] \<and> hd (insertSorted cmp x ys) = hd ys)"
      by (cases ys) auto
    with Cons.prems yx have "cmp y (hd (insertSorted cmp x ys)) \<le> 0"
      by (auto simp: successively_Cons)
    with True IH show ?thesis by (simp add: successively_Cons)
  qed
qed

lemma arraySort_sorted:
  assumes "\<And>a b. cmp a b = - cmp b a"
  shows "successively (\<lambda>a b. cmp a b \<le> (0::int)) (arraySort cmp xs)"
  unfolding arraySort_def
  by (induction xs) (simp_all add: insertSorted_sorted [OF assms])

lemma referenceOrder_nonDecreasing:
  assumes "length items = length les"
  shows "nonDecreasing conds
           (map snd (arraySort (\<lambda>l r. compare (snd l) (snd r) conds) (zip les items)))"
proof -
  have "successively (\<lambda>a b. compare (snd a) (snd b) conds \<le> 0)
          (arraySort (\<lambda>l r. compare (snd l) (snd r) conds) (zip les items))"
    by (rule arraySort_sorted) (rule compare_antisym)
  then show ?thesis
    by (simp add: nonDecreasing_successively successively_map)
qed

lemma filter_insertSorted:
  assumes "\<And>y. y \<in> set ys \<Longrightarrow> P x \<Longrightarrow> P y \<Longrightarrow> cmp x y = (0::int)"
  shows "filter P (insertSorted cmp x ys) = filter P (x # ys)"
  using assms
proof (induction ys)
  case Nil
  show ?case by simp
next
  case (Cons y ys)
  show ?case
  proof (cases "cmp x y > 0")
    case False
    then show ?thesis by simp
  next
    case True
    have IH: "filter P (insertSorted cmp x ys) = filter P (x # ys)"
      by (rule Cons.IH) (simp add: Cons.prems)
    from True Cons.prems [of y] have "\<not> (P x \<and> P y)" by auto
    with True IH show ?thesis by auto
  qed
qed

lemma arraySort_stable:
  assumes "\<And>a b. a \<in> set xs \<Longrightarrow> b \<in> set xs \<Longrightarrow> P a \<Longrightarrow> P b \<Longrightarrow> cmp a b = (0::int)"
  shows "filter P (arraySort cmp xs) = filter P xs"
  using assms
proof (induction xs)
  case Nil
  show ?case by (simp add: arraySort_def)
next
  case (Cons x xs)
  have IH: "filter P (arraySort cmp xs) = filter P xs"
    by (rule Cons.IH) (simp add: Cons.prems)
  have "filter P (insertSorted cmp x (arraySort cmp xs)) = filter P (x # arraySort cmp xs)"
    by (rule filter_insertSorted) (simp add: set_arraySort Cons.prems)
  with IH show ?case by (simp add: arraySort_def)
qed

end
